theory Spec2Isabelle
  imports Main
begin

section \<open>Data model of orlo.cc\<close>

text \<open>
  The eighteen values of \<^verbatim>\<open>enum class gate_type_t\<close> (orlo.cc, lines 159-178).
\<close>

datatype gate_type_t =
    G_NONE | G_FF | G_BUF | G_NOT
  | G_AND | G_NAND | G_OR | G_NOR | G_XOR | G_XNOR | G_ANDNOT | G_ORNOT
  | G_MUX | G_NMUX | G_AOI3 | G_OAI3 | G_AOI4 | G_OAI4

text \<open>\<^verbatim>\<open>RTLIL::State\<close>: the value of a constant bit and of an initial value.\<close>

datatype State = S0 | S1 | Sx | Sz | Sa | Sm

text \<open>
  \<^verbatim>\<open>RTLIL::Wire\<close>, reduced to the two fields orlo.cc reads: the name (an
  \<^verbatim>\<open>IdString\<close>, whose first character is a backslash for a user-given name and a dollar
  sign for an internal one) and the width. Wires of one module have distinct names, so the
  record stands for the pointer \<^verbatim>\<open>Wire *\<close> as well.
\<close>

record Wire =
  name :: string
  width :: int

text \<open>
  \<^verbatim>\<open>RTLIL::SigBit\<close> is a wire pointer with a union of an offset (wire set) and a constant
  value (wire null). The tagged union is a datatype; \<open>bit_wire\<close> reads the pointer.
\<close>

datatype SigBit = WireBit Wire int | ConstBit State

fun bit_wire :: "SigBit \<Rightarrow> Wire option" where
  "bit_wire (WireBit w off) = Some w"
| "bit_wire (ConstBit s) = None"

text \<open>
  \<^verbatim>\<open>struct gate_t\<close> (lines 182-190). The fields \<^verbatim>\<open>id\<close>, \<^verbatim>\<open>type\<close>, \<^verbatim>\<open>bit\<close> and \<^verbatim>\<open>init\<close>
  are written \<open>gate_id\<close>, \<open>gate_type\<close>, \<open>gate_bit\<close> and \<open>gate_init\<close>; ids and fan-ins are
  C ints, with \<open>-1\<close> for an unset fan-in.
\<close>

record gate_t =
  gate_id :: int
  gate_type :: gate_type_t
  in1 :: int
  in2 :: int
  in3 :: int
  in4 :: int
  is_port :: bool
  gate_bit :: SigBit
  gate_init :: State

text \<open>
  The two globals of the signal registry: \<^verbatim>\<open>std::vector<gate_t> signal_list\<close> and
  \<^verbatim>\<open>std::map<RTLIL::SigBit, int> signal_map\<close> (lines 200-201).
\<close>

record registry =
  signal_list :: "gate_t list"
  signal_map :: "SigBit \<rightharpoonup> int"

text \<open>
  Failures of the C++ code as values. \<open>IndexOutOfRange\<close>: an index outside a vector or a
  read past the end of a string (undefined behaviour); \<open>NullPointer\<close>: a null wire pointer
  that is dereferenced; \<open>IntOverflow\<close>: \<^verbatim>\<open>atoi\<close> on a number that does not fit an int;
  \<open>StdOutOfRange\<close>: \<^verbatim>\<open>std::out_of_range\<close> thrown by \<^verbatim>\<open>at\<close>, \<^verbatim>\<open>substr\<close> or \<^verbatim>\<open>getPort\<close>;
  \<open>AssertFailed\<close>: a failed \<^verbatim>\<open>log_assert\<close>; \<open>CantOpenOutputFile\<close> and
  \<open>NoModuleNetlist\<close>: the two calls of \<^verbatim>\<open>log_error\<close> in \<^verbatim>\<open>orlo_reintegrate\<close>.
  \<open>KeyNotFound\<close> stands in the branches that the C++ cannot reach, where a key that
  \<^verbatim>\<open>operator[]\<close> has just found or inserted would be missing.
\<close>

datatype error =
    IndexOutOfRange | NullPointer | IntOverflow | StdOutOfRange | KeyNotFound | AssertFailed
  | CantOpenOutputFile | NoModuleNetlist

section \<open>Signal registry\<close>

text \<open>
  \<^verbatim>\<open>map_signal\<close> (lines 216-249). The signal map \<^verbatim>\<open>assign_map\<close> and the initial values
  \<^verbatim>\<open>initvals\<close> are collaborators of the host and are parameters here. The default
  arguments of the C++ (\<^verbatim>\<open>G(NONE)\<close> and four times \<open>-1\<close>) are passed by the callers.
\<close>

definition new_gate :: "(SigBit \<Rightarrow> State) \<Rightarrow> registry \<Rightarrow> SigBit \<Rightarrow> gate_t" where
  "new_gate initvals r b =
     \<lparr> gate_id = int (length (signal_list r)), gate_type = G_NONE,
       in1 = -1, in2 = -1, in3 = -1, in4 = -1,
       is_port = False, gate_bit = b, gate_init = initvals b \<rparr>"

definition set_gate :: "gate_type_t \<Rightarrow> int \<Rightarrow> int \<Rightarrow> int \<Rightarrow> int \<Rightarrow> gate_t \<Rightarrow> gate_t" where
  "set_gate gt i1 i2 i3 i4 g =
     g \<lparr> gate_type := (if gt \<noteq> G_NONE then gt else gate_type g),
         in1 := (if i1 \<ge> 0 then i1 else in1 g),
         in2 := (if i2 \<ge> 0 then i2 else in2 g),
         in3 := (if i3 \<ge> 0 then i3 else in3 g),
         in4 := (if i4 \<ge> 0 then i4 else in4 g) \<rparr>"

definition map_signal ::
  "(SigBit \<Rightarrow> SigBit) \<Rightarrow> (SigBit \<Rightarrow> State) \<Rightarrow> registry \<Rightarrow> SigBit \<Rightarrow> gate_type_t \<Rightarrow>
   int \<Rightarrow> int \<Rightarrow> int \<Rightarrow> int \<Rightarrow> error + (int \<times> registry)" where
  "map_signal assign_map initvals r bit0 gt i1 i2 i3 i4 =
     (let b = assign_map bit0;
          r1 = (if signal_map r b = None
                then r \<lparr> signal_list := signal_list r @ [new_gate initvals r b],
                         signal_map := (signal_map r)(b \<mapsto> int (length (signal_list r))) \<rparr>
                else r)
      in case signal_map r1 b of
           None \<Rightarrow> Inl KeyNotFound
         | Some idx \<Rightarrow>
             if 0 \<le> idx \<and> nat idx < length (signal_list r1)
             then let g = set_gate gt i1 i2 i3 i4 (signal_list r1 ! nat idx)
                  in Inr (gate_id g, r1 \<lparr> signal_list := (signal_list r1)[nat idx := g] \<rparr>)
             else Inl IndexOutOfRange)"

text \<open>
  \<^verbatim>\<open>mark_port\<close> (lines 251-256): the loop over the bits of \<^verbatim>\<open>assign_map(sig)\<close>.
\<close>

fun mark_port_bits :: "registry \<Rightarrow> SigBit list \<Rightarrow> error + registry" where
  "mark_port_bits r [] = Inr r"
| "mark_port_bits r (b # bs) =
     (if bit_wire b \<noteq> None \<and> signal_map r b \<noteq> None
      then (case signal_map r b of
              None \<Rightarrow> Inl KeyNotFound
            | Some idx \<Rightarrow>
                if 0 \<le> idx \<and> nat idx < length (signal_list r)
                then mark_port_bits
                       (r \<lparr> signal_list :=
                              (signal_list r)[nat idx := (signal_list r ! nat idx) \<lparr> is_port := True \<rparr>] \<rparr>)
                       bs
                else Inl IndexOutOfRange)
      else mark_port_bits r bs)"

definition mark_port :: "(SigBit \<Rightarrow> SigBit) \<Rightarrow> registry \<Rightarrow> SigBit list \<Rightarrow> error + registry" where
  "mark_port assign_map r sig = mark_port_bits r (map assign_map sig)"

text \<open>
  The invariant of the registry that the C++ relies on when it indexes \<^verbatim>\<open>signal_list\<close>
  with a value of \<^verbatim>\<open>signal_map\<close>: the map sends a bit to the index of the node that holds
  it, and a node's id is its index.
\<close>

definition registry_ok :: "registry \<Rightarrow> bool" where
  "registry_ok r \<longleftrightarrow>
     (\<forall>b i. signal_map r b = Some i \<longrightarrow>
        0 \<le> i \<and> nat i < length (signal_list r) \<and> gate_bit (signal_list r ! nat i) = b) \<and>
     (\<forall>k < length (signal_list r). gate_id (signal_list r ! k) = int k \<and>
        signal_map r (gate_bit (signal_list r ! k)) = Some (int k))"

definition empty_registry :: registry where
  "empty_registry = \<lparr> signal_list = [], signal_map = Map.empty \<rparr>"

section \<open>Interchange emitter\<close>

text \<open>
  \<^verbatim>\<open>printf("%d")\<close> of an int: decimal digits, with a minus sign for a negative value.
\<close>

definition digit_char :: "nat \<Rightarrow> char" where
  "digit_char d = ''0123456789'' ! d"

fun string_of_nat :: "nat \<Rightarrow> string" where
  "string_of_nat n =
     (if n < 10 then [digit_char n] else string_of_nat (n div 10) @ [digit_char (n mod 10)])"

declare string_of_nat.simps [simp del]

definition string_of_int :: "int \<Rightarrow> string" where
  "string_of_int i = (if i < 0 then CHR ''-'' # string_of_nat (nat (- i)) else string_of_nat (nat i))"

text \<open>
  The per-node part of the emitter in \<^verbatim>\<open>orlo_module\<close> (lines 1238-1310): the lines
  written for one node, without their newlines. A node of kind \<open>G_NONE\<close> writes nothing
  here; the C++ reaches \<^verbatim>\<open>log_abort\<close> only for a kind outside the enum.
\<close>

definition ys_name :: "int \<Rightarrow> string" where
  "ys_name i = ''ys__n'' @ string_of_int i"

definition names_line :: "int list \<Rightarrow> string" where
  "names_line ids = ''.names'' @ concat (map (\<lambda>i. '' '' @ ys_name i) ids)"

definition latch_line :: "int \<Rightarrow> int \<Rightarrow> string \<Rightarrow> string" where
  "latch_line d q v = ''.latch '' @ ys_name d @ '' '' @ ys_name q @ '' '' @ v"

definition emit_gate :: "gate_t \<Rightarrow> string list" where
  "emit_gate si =
     (case gate_type si of
        G_BUF \<Rightarrow> [names_line [in1 si, gate_id si], ''1 1'']
      | G_NOT \<Rightarrow> [names_line [in1 si, gate_id si], ''0 1'']
      | G_AND \<Rightarrow> [names_line [in1 si, in2 si, gate_id si], ''11 1'']
      | G_NAND \<Rightarrow> [names_line [in1 si, in2 si, gate_id si], ''0- 1'', ''-0 1'']
      | G_OR \<Rightarrow> [names_line [in1 si, in2 si, gate_id si], ''-1 1'', ''1- 1'']
      | G_NOR \<Rightarrow> [names_line [in1 si, in2 si, gate_id si], ''00 1'']
      | G_XOR \<Rightarrow> [names_line [in1 si, in2 si, gate_id si], ''01 1'', ''10 1'']
      | G_XNOR \<Rightarrow> [names_line [in1 si, in2 si, gate_id si], ''00 1'', ''11 1'']
      | G_ANDNOT \<Rightarrow> [names_line [in1 si, in2 si, gate_id si], ''10 1'']
      | G_ORNOT \<Rightarrow> [names_line [in1 si, in2 si, gate_id si], ''1- 1'', ''-0 1'']
      | G_MUX \<Rightarrow> [names_line [in1 si, in2 si, in3 si, gate_id si], ''1-0 1'', ''-11 1'']
      | G_NMUX \<Rightarrow> [names_line [in1 si, in2 si, in3 si, gate_id si], ''0-0 1'', ''-01 1'']
      | G_AOI3 \<Rightarrow> [names_line [in1 si, in2 si, in3 si, gate_id si], ''-00 1'', ''0-0 1'']
      | G_OAI3 \<Rightarrow> [names_line [in1 si, in2 si, in3 si, gate_id si], ''00- 1'', ''--0 1'']
      | G_AOI4 \<Rightarrow> [names_line [in1 si, in2 si, in3 si, in4 si, gate_id si],
                    ''-0-0 1'', ''-00- 1'', ''0--0 1'', ''0-0- 1'']
      | G_OAI4 \<Rightarrow> [names_line [in1 si, in2 si, in3 si, in4 si, gate_id si],
                    ''00-- 1'', ''--00 1'']
      | G_FF \<Rightarrow> (if gate_init si = S0 \<or> gate_init si = S1
                  then [latch_line (in1 si) (gate_id si) (if gate_init si = S1 then ''1'' else ''0'')]
                  else [latch_line (in1 si) (gate_id si) ''2''])
      | G_NONE \<Rightarrow> [])"

text \<open>
  The rows of a \<^verbatim>\<open>.names\<close> block are the lines after its header. A row is one character
  of \<^verbatim>\<open>0\<close>, \<^verbatim>\<open>1\<close> or \<^verbatim>\<open>-\<close> per input column, a blank and the output \<^verbatim>\<open>1\<close>; the
  cover is 1 where some row matches and 0 elsewhere (the sum-of-products reading of the
  interchange format).
\<close>

definition cover_rows :: "string list \<Rightarrow> string list" where
  "cover_rows ls = (case ls of [] \<Rightarrow> [] | h # rows \<Rightarrow> if take 6 h = ''.names'' then rows else [])"

definition lit_matches :: "char \<Rightarrow> bool \<Rightarrow> bool" where
  "lit_matches c v = (if c = CHR ''1'' then v else if c = CHR ''0'' then \<not> v else c = CHR ''-'')"

definition row_asserts :: "string \<Rightarrow> bool list \<Rightarrow> bool" where
  "row_asserts row vs \<longleftrightarrow>
     length row = length vs + 2 \<and> drop (length vs) row = '' 1'' \<and>
     list_all2 lit_matches (take (length vs) row) vs"

definition eval_cover :: "string list \<Rightarrow> bool list \<Rightarrow> bool" where
  "eval_cover rows vs = list_ex (\<lambda>row. row_asserts row vs) rows"

text \<open>
  The Boolean function of each gate kind, as orlo.cc itself writes it into
  \<^verbatim>\<open>stdcells.genlib\<close> (lines 1330-1359): \<^verbatim>\<open>Y=A\<close>, \<^verbatim>\<open>Y=!A\<close>, \<^verbatim>\<open>Y=A*B\<close>,
  \<^verbatim>\<open>Y=!(A*B)\<close>, \<^verbatim>\<open>Y=A+B\<close>, \<^verbatim>\<open>Y=!(A+B)\<close>, \<^verbatim>\<open>Y=(A*!B)+(!A*B)\<close>,
  \<^verbatim>\<open>Y=(A*B)+(!A*!B)\<close>, \<^verbatim>\<open>Y=A*!B\<close>, \<^verbatim>\<open>Y=A+!B\<close>, \<^verbatim>\<open>Y=!((A*B)+C)\<close>,
  \<^verbatim>\<open>Y=!((A+B)*C)\<close>, \<^verbatim>\<open>Y=!((A*B)+(C*D))\<close>, \<^verbatim>\<open>Y=!((A+B)*(C+D))\<close>,
  \<^verbatim>\<open>Y=(A*B)+(S*B)+(!S*A)\<close> and its complement. The inputs are in the order of the
  fan-ins \<open>in1\<close> to \<open>in4\<close>, which \<^verbatim>\<open>extract_cell\<close> fills from the ports A, B, then S or
  C, then D. The function is undefined (\<open>None\<close>) for \<open>G_NONE\<close> and \<open>G_FF\<close>, which write
  no \<^verbatim>\<open>.names\<close> block, and for an input vector of another length.
\<close>

fun gate_function :: "gate_type_t \<Rightarrow> bool list \<Rightarrow> bool option" where
  "gate_function G_BUF [a] = Some a"
| "gate_function G_NOT [a] = Some (\<not> a)"
| "gate_function G_AND [a, b] = Some (a \<and> b)"
| "gate_function G_NAND [a, b] = Some (\<not> (a \<and> b))"
| "gate_function G_OR [a, b] = Some (a \<or> b)"
| "gate_function G_NOR [a, b] = Some (\<not> (a \<or> b))"
| "gate_function G_XOR [a, b] = Some ((a \<and> \<not> b) \<or> (\<not> a \<and> b))"
| "gate_function G_XNOR [a, b] = Some ((a \<and> b) \<or> (\<not> a \<and> \<not> b))"
| "gate_function G_ANDNOT [a, b] = Some (a \<and> \<not> b)"
| "gate_function G_ORNOT [a, b] = Some (a \<or> \<not> b)"
| "gate_function G_AOI3 [a, b, c] = Some (\<not> ((a \<and> b) \<or> c))"
| "gate_function G_OAI3 [a, b, c] = Some (\<not> ((a \<or> b) \<and> c))"
| "gate_function G_AOI4 [a, b, c, d] = Some (\<not> ((a \<and> b) \<or> (c \<and> d)))"
| "gate_function G_OAI4 [a, b, c, d] = Some (\<not> ((a \<or> b) \<and> (c \<or> d)))"
| "gate_function G_MUX [a, b, s] = Some ((a \<and> b) \<or> (s \<and> b) \<or> (\<not> s \<and> a))"
| "gate_function G_NMUX [a, b, s] = Some (\<not> ((a \<and> b) \<or> (s \<and> b) \<or> (\<not> s \<and> a)))"
| "gate_function _ _ = None"

section \<open>Name remapping\<close>

text \<open>
  The pieces of the C library that \<^verbatim>\<open>remap_name\<close> uses. \<^verbatim>\<open>std::isdigit\<close> on the
  characters 0 to 9; \<^verbatim>\<open>std::atoi\<close> on a string that starts with a digit reads the
  longest prefix of digits as a decimal number, and a value that does not fit an int is
  undefined behaviour (the error \<open>IntOverflow\<close>); \<^verbatim>\<open>compare(0, n, p) == 0\<close> holds when
  the string starts with \<open>p\<close>; \<^verbatim>\<open>c_str()+1\<close> is the string without its first character
  and reads past the end of an empty string.
\<close>

definition is_digit :: "char \<Rightarrow> bool" where
  "is_digit c \<longleftrightarrow> c \<in> set ''0123456789''"

definition digit_val :: "char \<Rightarrow> nat" where
  "digit_val c = of_char c - 48"

definition INT_MAX :: nat where
  "INT_MAX = 2147483647"

definition atoi :: "string \<Rightarrow> error + int" where
  "atoi s =
     (let v = foldl (\<lambda>a c. 10 * a + digit_val c) 0 (takeWhile is_digit s)
      in if v \<le> INT_MAX then Inr (int v) else Inl IntOverflow)"

definition starts_with :: "string \<Rightarrow> string \<Rightarrow> bool" where
  "starts_with p s \<longleftrightarrow> take (length p) s = p"

definition c_str_plus1 :: "string \<Rightarrow> error + string" where
  "c_str_plus1 s = (case s of [] \<Rightarrow> Inl IndexOutOfRange | c # t \<Rightarrow> Inr t)"

text \<open>
  \<^verbatim>\<open>remap_name\<close> (lines 423-460). Its parameters are the globals \<^verbatim>\<open>map_autoidx\<close> and
  \<^verbatim>\<open>signal_list\<close>; it returns the name and the wire it stores through \<^verbatim>\<open>orig_wire\<close>
  (\<open>None\<close> where the C++ leaves the pointer as it was). \<^verbatim>\<open>substr(1)\<close> on an empty name
  and \<^verbatim>\<open>at(0)\<close> on an empty rest throw \<^verbatim>\<open>std::out_of_range\<close>. \<^verbatim>\<open>find_first_not_of\<close>
  on the digits gives the start of the postfix, the rest after the leading digits.
\<close>

definition abc_prefix :: "int \<Rightarrow> string" where
  "abc_prefix map_autoidx = ''$abc$'' @ string_of_int map_autoidx @ ''$''"

definition remap_name :: "int \<Rightarrow> gate_t list \<Rightarrow> string \<Rightarrow> error + (string \<times> Wire option)" where
  "remap_name map_autoidx sl abc_name =
     (case abc_name of
        [] \<Rightarrow> Inl StdOutOfRange
      | c0 # sname0 \<Rightarrow>
          let isnew = starts_with ''new_'' sname0;
              sname1 = (if isnew then drop 4 sname0 else sname0);
              fallback = Inr (abc_prefix map_autoidx @ sname0, None)
          in if starts_with ''ys__n'' sname1
             then (case drop 5 sname1 of
                     [] \<Rightarrow> Inl StdOutOfRange
                   | d # ds \<Rightarrow>
                       if is_digit d
                       then (case atoi (d # ds) of
                               Inl e \<Rightarrow> Inl e
                             | Inr sid \<Rightarrow>
                                 let postfix = dropWhile is_digit (d # ds)
                                 in if sid < int (length sl)
                                    then (case gate_bit (sl ! nat sid) of
                                            ConstBit v \<Rightarrow> fallback
                                          | WireBit w off \<Rightarrow>
                                              (case c_str_plus1 (name w) of
                                                 Inl e \<Rightarrow> Inl e
                                               | Inr wname \<Rightarrow>
                                                   Inr (abc_prefix map_autoidx @ wname
                                                        @ (if width w \<noteq> 1
                                                           then ''['' @ string_of_int off @ '']''
                                                           else '''')
                                                        @ (if isnew then ''_new'' else '''')
                                                        @ postfix,
                                                        Some w)))
                                    else fallback)
                       else fallback)
             else fallback)"

section \<open>Reintegration\<close>

text \<open>
  \<^verbatim>\<open>RTLIL::SigSpec\<close> as the list of its bits and \<^verbatim>\<open>RTLIL::SigSig\<close> as the pair it is.
  \<^verbatim>\<open>Module::connect\<close> assigns the second component to the first: orlo.cc puts the
  constant of a \<^verbatim>\<open>ZERO\<close> or \<^verbatim>\<open>ONE\<close> cell and the input \<^verbatim>\<open>A\<close> of a \<^verbatim>\<open>BUF\<close> cell into
  \<^verbatim>\<open>conn.second\<close> and the output \<^verbatim>\<open>Y\<close> into \<^verbatim>\<open>conn.first\<close> (lines 798-813). So the
  first component is the driven signal and the second its driver.
\<close>

type_synonym SigSpec = "SigBit list"
type_synonym SigSig = "SigSpec \<times> SigSpec"

definition conn_driven :: "SigSig \<Rightarrow> SigSpec" where
  "conn_driven c = fst c"

definition conn_driver :: "SigSig \<Rightarrow> SigSpec" where
  "conn_driver c = snd c"

text \<open>
  The host module, reduced to its wires and its connections; cells and attributes live in
  the extension of the record. \<^verbatim>\<open>module->wire(name)\<close> is null for an unknown name,
  \<^verbatim>\<open>module->addWire(name)\<close> makes a wire of width 1, \<^verbatim>\<open>module->connect\<close> appends a
  connection, and a \<^verbatim>\<open>SigSpec\<close> built from a wire holds the bits of the wire. The module
  that \<^verbatim>\<open>parse_blif\<close> returns is reduced to its wires in the same way.
\<close>

record Module =
  wires :: "Wire list"
  connections :: "SigSig list"

record Mapped =
  mapped_wires :: "Wire list"

definition module_wire :: "'a Module_scheme \<Rightarrow> string \<Rightarrow> Wire option" where
  "module_wire m nm = find (\<lambda>w. name w = nm) (wires m)"

definition addWire :: "'a Module_scheme \<Rightarrow> string \<Rightarrow> 'a Module_scheme" where
  "addWire m nm = m \<lparr> wires := wires m @ [\<lparr> name = nm, width = 1 \<rparr>] \<rparr>"

definition connect :: "'a Module_scheme \<Rightarrow> SigSig \<Rightarrow> 'a Module_scheme" where
  "connect m c = m \<lparr> connections := connections m @ [c] \<rparr>"

definition sigspec_of_wire :: "Wire \<Rightarrow> SigSpec" where
  "sigspec_of_wire w = map (\<lambda>i. WireBit w (int i)) [0..<nat (width w)]"

text \<open>
  What \<^verbatim>\<open>orlo_reintegrate\<close> finds at \<^verbatim>\<open>output.blif\<close>: no file (\<^verbatim>\<open>exists\<close> is false), a
  file that cannot be opened (\<^verbatim>\<open>ifs.fail()\<close>), or a file that \<^verbatim>\<open>parse_blif\<close> reads, with
  the module \<^verbatim>\<open>netlist\<close> of the mapped design when there is one.
\<close>

datatype 'm blif_file = NoFile | CannotOpen | Parsed "'m option"

text \<open>
  The loop over the mapped wires (lines 783-790); the attributes it copies and the
  selection it extends are outside the reduced module.
\<close>

fun add_mapped_wires ::
  "int \<Rightarrow> gate_t list \<Rightarrow> Wire list \<Rightarrow> 'a Module_scheme \<Rightarrow> error + 'a Module_scheme" where
  "add_mapped_wires map_autoidx sl [] m = Inr m"
| "add_mapped_wires map_autoidx sl (w # ws) m =
     (case remap_name map_autoidx sl (name w) of
        Inl e \<Rightarrow> Inl e
      | Inr (nm, orig_wire) \<Rightarrow> add_mapped_wires map_autoidx sl ws (addWire m nm))"

text \<open>
  The loop over the port nodes (lines 989-1005): \<open>port_conn\<close> is the pair the C++ builds
  in \<^verbatim>\<open>conn.first\<close> and \<^verbatim>\<open>conn.second\<close>. A name that is no wire of the module makes
  \<^verbatim>\<open>module->wire\<close> null, and building a \<^verbatim>\<open>SigSpec\<close> from it dereferences the null pointer.
\<close>

definition port_conn :: "gate_t \<Rightarrow> Wire \<Rightarrow> SigSig" where
  "port_conn si w =
     (if gate_type si \<noteq> G_NONE
      then ([gate_bit si], sigspec_of_wire w)
      else (sigspec_of_wire w, [gate_bit si]))"

fun connect_ports ::
  "int \<Rightarrow> gate_t list \<Rightarrow> gate_t list \<Rightarrow> 'a Module_scheme \<Rightarrow> error + 'a Module_scheme" where
  "connect_ports map_autoidx sl [] m = Inr m"
| "connect_ports map_autoidx sl (si # rest) m =
     (if is_port si
      then (case remap_name map_autoidx sl (CHR 0x5C # ys_name (gate_id si)) of
              Inl e \<Rightarrow> Inl e
            | Inr (nm, orig_wire) \<Rightarrow>
                (case module_wire m nm of
                   None \<Rightarrow> Inl NullPointer
                 | Some w \<Rightarrow> connect_ports map_autoidx sl rest (connect m (port_conn si w))))
      else connect_ports map_autoidx sl rest m)"

text \<open>
  \<^verbatim>\<open>orlo_reintegrate\<close> (lines 750-1012). The translation of the mapped cells, of the
  mapped connections and of the init attributes (lines 792-985) reads neither
  \<^verbatim>\<open>signal_list\<close> nor the port flags; it is the parameter \<open>splice_cells\<close>, which may fail.
  A missing file is logged and skipped: the function returns with the module as it was.
\<close>

definition orlo_reintegrate ::
  "('b Mapped_scheme \<Rightarrow> 'a Module_scheme \<Rightarrow> error + 'a Module_scheme) \<Rightarrow> int \<Rightarrow> gate_t list \<Rightarrow>
   'b Mapped_scheme blif_file \<Rightarrow> 'a Module_scheme \<Rightarrow> error + 'a Module_scheme" where
  "orlo_reintegrate splice_cells map_autoidx sl file m =
     (case file of
        NoFile \<Rightarrow> Inr m
      | CannotOpen \<Rightarrow> Inl CantOpenOutputFile
      | Parsed None \<Rightarrow> Inl NoModuleNetlist
      | Parsed (Some mapped_mod) \<Rightarrow>
          (case add_mapped_wires map_autoidx sl (mapped_wires mapped_mod) m of
             Inl e \<Rightarrow> Inl e
           | Inr m1 \<Rightarrow>
               (case splice_cells mapped_mod m1 of
                  Inl e \<Rightarrow> Inl e
                | Inr m2 \<Rightarrow> connect_ports map_autoidx sl sl m2)))"

text \<open>
  The number of declared outputs, \<^verbatim>\<open>count_output\<close> of \<^verbatim>\<open>orlo_module\<close> (lines 1216-1223):
  the nodes written to the \<^verbatim>\<open>.outputs\<close> line.
\<close>

definition count_output :: "gate_t list \<Rightarrow> nat" where
  "count_output sl = length (filter (\<lambda>si. is_port si \<and> gate_type si \<noteq> G_NONE) sl)"

section \<open>Loop breaker\<close>

text \<open>
  The containers of \<^verbatim>\<open>handle_loops\<close> (lines 491-622). A \<^verbatim>\<open>std::set<int>\<close> is the list
  of its elements in increasing order: \<open>set_insert\<close> adds an element that is not there,
  \<open>set_erase\<close> removes it, \<^verbatim>\<open>*begin()\<close> is the head. The \<^verbatim>\<open>std::map<int, std::set<int>>\<close>
  of the edges is the list of its entries in increasing key order: \<open>edges_at\<close> is the value
  of \<^verbatim>\<open>edges[k]\<close> (the empty set for a key that \<^verbatim>\<open>operator[]\<close> creates), \<open>map_erase\<close> is
  \<^verbatim>\<open>erase\<close>, \<open>map_assign\<close> stores a value under a key, and \<open>edge_insert u v\<close> is
  \<^verbatim>\<open>edges[u].insert(v)\<close>.
\<close>

type_synonym int_set = "int list"
type_synonym edge_map = "(int \<times> int_set) list"

definition set_insert :: "int \<Rightarrow> int_set \<Rightarrow> int_set" where
  "set_insert x xs = (if x \<in> set xs then xs else insort x xs)"

definition set_erase :: "int \<Rightarrow> int_set \<Rightarrow> int_set" where
  "set_erase x xs = removeAll x xs"

definition edges_at :: "edge_map \<Rightarrow> int \<Rightarrow> int_set" where
  "edges_at es k = (case map_of es k of None \<Rightarrow> [] | Some s \<Rightarrow> s)"

definition map_erase :: "int \<Rightarrow> edge_map \<Rightarrow> edge_map" where
  "map_erase k es = filter (\<lambda>e. fst e \<noteq> k) es"

definition map_assign :: "int \<Rightarrow> int_set \<Rightarrow> edge_map \<Rightarrow> edge_map" where
  "map_assign k s es = insort_key fst (k, s) (map_erase k es)"

definition edge_insert :: "int \<Rightarrow> int \<Rightarrow> edge_map \<Rightarrow> edge_map" where
  "edge_insert u v es = map_assign u (set_insert v (edges_at es u)) es"

text \<open>
  Reading \<^verbatim>\<open>signal_list[i]\<close> and incrementing \<^verbatim>\<open>in_edges_count[i]\<close>: an index outside
  the vector is undefined behaviour in the C++ and the error \<open>IndexOutOfRange\<close> here.
\<close>

definition gate_at :: "gate_t list \<Rightarrow> int \<Rightarrow> error + gate_t" where
  "gate_at sl i = (if 0 \<le> i \<and> nat i < length sl then Inr (sl ! nat i) else Inl IndexOutOfRange)"

definition count_incr :: "int \<Rightarrow> int list \<Rightarrow> error + int list" where
  "count_incr i cs =
     (if 0 \<le> i \<and> nat i < length cs then Inr (cs[nat i := cs ! nat i + 1]) else Inl IndexOutOfRange)"

text \<open>
  The state of \<^verbatim>\<open>handle_loops\<close>: the globals it changes (the registry, the host module
  and Yosys' counter \<^verbatim>\<open>autoidx\<close>) and its locals \<^verbatim>\<open>edges\<close>, \<^verbatim>\<open>in_edges_count\<close> and
  \<^verbatim>\<open>workpool\<close>.
\<close>

record loop_state =
  reg :: registry
  host :: Module
  autoidx :: int
  edges :: edge_map
  in_edges_count :: "int list"
  workpool :: int_set

text \<open>
  The first loop (lines 506-527): a node of kind \<open>G_NONE\<close> or \<open>G_FF\<close> goes to the workpool;
  any other node gets an edge from each of its fan-ins that is set and differs from the
  fan-ins before it. \<open>add_fanin g i earlier\<close> is one of the four \<^verbatim>\<open>if\<close> statements.
\<close>

definition add_fanin :: "gate_t \<Rightarrow> int \<Rightarrow> int list \<Rightarrow> edge_map \<times> int list \<Rightarrow> error + (edge_map \<times> int list)" where
  "add_fanin g i earlier ec =
     (if i \<ge> 0 \<and> i \<notin> set earlier
      then (case count_incr (gate_id g) (snd ec) of
              Inl e \<Rightarrow> Inl e
            | Inr cs \<Rightarrow> Inr (edge_insert i (gate_id g) (fst ec), cs))
      else Inr ec)"

fun build_graph ::
  "gate_t list \<Rightarrow> edge_map \<times> int list \<times> int_set \<Rightarrow> error + (edge_map \<times> int list \<times> int_set)" where
  "build_graph [] acc = Inr acc"
| "build_graph (g # gs) (es, cs, wp) =
     (if gate_type g = G_NONE \<or> gate_type g = G_FF
      then build_graph gs (es, cs, set_insert (gate_id g) wp)
      else (case add_fanin g (in1 g) [] (es, cs) of Inl e \<Rightarrow> Inl e | Inr ec1 \<Rightarrow>
           (case add_fanin g (in2 g) [in1 g] ec1 of Inl e \<Rightarrow> Inl e | Inr ec2 \<Rightarrow>
           (case add_fanin g (in3 g) [in2 g, in1 g] ec2 of Inl e \<Rightarrow> Inl e | Inr ec3 \<Rightarrow>
           (case add_fanin g (in4 g) [in3 g, in2 g, in1 g] ec3 of Inl e \<Rightarrow> Inl e | Inr ec4 \<Rightarrow>
              build_graph gs (fst ec4, snd ec4, wp))))))"

text \<open>
  Removing the first node of the workpool (lines 533-543): the loop over its successors
  with its \<^verbatim>\<open>log_assert\<close>, then \<^verbatim>\<open>edges.erase(id)\<close>.
\<close>

fun release_successors :: "int list \<Rightarrow> int list \<times> int_set \<Rightarrow> error + (int list \<times> int_set)" where
  "release_successors [] acc = Inr acc"
| "release_successors (id2 # rest) (cs, wp) =
     (if 0 \<le> id2 \<and> nat id2 < length cs
      then if cs ! nat id2 > 0
           then let c = cs ! nat id2 - 1
                in release_successors rest
                     (cs[nat id2 := c], if c = 0 then set_insert id2 wp else wp)
           else Inl AssertFailed
      else Inl IndexOutOfRange)"

definition remove_node :: "loop_state \<Rightarrow> error + loop_state" where
  "remove_node s =
     (case workpool s of
        [] \<Rightarrow> Inl IndexOutOfRange
      | i # _ \<Rightarrow>
          (case release_successors (edges_at (edges s) i) (in_edges_count s, set_erase i (workpool s)) of
             Inl e \<Rightarrow> Inl e
           | Inr (cs, wp) \<Rightarrow>
               Inr (s \<lparr> edges := map_erase i (edges s), in_edges_count := cs, workpool := wp \<rparr>)))"

text \<open>
  The choice of the node at which a loop is broken (lines 552-572). \<open>str_less\<close> is
  \<^verbatim>\<open>operator<\<close> of \<^verbatim>\<open>std::string\<close>, \<open>first_char\<close> is \<^verbatim>\<open>name[0]\<close> (the terminating
  zero of an empty name), \<open>pick\<close> is the body of the loop for the candidate \<open>id1\<close> and the
  key \<open>id2\<close>, and \<open>choose_break\<close> starts from the first key and scans all keys.
\<close>

fun str_less :: "string \<Rightarrow> string \<Rightarrow> bool" where
  "str_less [] [] = False"
| "str_less [] (y # ys) = True"
| "str_less (x # xs) [] = False"
| "str_less (x # xs) (y # ys) = ((of_char x :: nat) < of_char y \<or> (x = y \<and> str_less xs ys))"

definition first_char :: "string \<Rightarrow> char" where
  "first_char s = (case s of [] \<Rightarrow> CHR 0x00 | c # _ \<Rightarrow> c)"

definition pick :: "gate_t list \<Rightarrow> edge_map \<Rightarrow> int \<Rightarrow> int \<Rightarrow> error + int" where
  "pick sl es id1 id2 =
     (case gate_at sl id1 of Inl e \<Rightarrow> Inl e | Inr g1 \<Rightarrow>
      (case gate_at sl id2 of Inl e \<Rightarrow> Inl e | Inr g2 \<Rightarrow>
       (case bit_wire (gate_bit g1) of
          None \<Rightarrow> Inr id2
        | Some w1 \<Rightarrow>
            (case bit_wire (gate_bit g2) of
               None \<Rightarrow> Inr id1
             | Some w2 \<Rightarrow>
                 if first_char (name w1) = CHR ''$'' \<and> first_char (name w2) = CHR 0x5C then Inr id2
                 else if first_char (name w1) = CHR 0x5C \<and> first_char (name w2) = CHR ''$'' then Inr id1
                 else if length (edges_at es id1) < length (edges_at es id2) then Inr id2
                 else if length (edges_at es id1) > length (edges_at es id2) then Inr id1
                 else if str_less (name w2) (name w1) then Inr id2
                 else Inr id1))))"

fun pick_scan :: "gate_t list \<Rightarrow> edge_map \<Rightarrow> int \<Rightarrow> int list \<Rightarrow> error + int" where
  "pick_scan sl es id1 [] = Inr id1"
| "pick_scan sl es id1 (id2 # rest) =
     (case pick sl es id1 id2 of Inl e \<Rightarrow> Inl e | Inr i \<Rightarrow> pick_scan sl es i rest)"

definition choose_break :: "gate_t list \<Rightarrow> edge_map \<Rightarrow> error + int" where
  "choose_break sl es =
     (case es of
        [] \<Rightarrow> Inl IndexOutOfRange
      | e # _ \<Rightarrow> pick_scan sl es (fst e) (map fst es))"

text \<open>
  Breaking the loop at \<open>id1\<close> (lines 579-615): the new wire \<^verbatim>\<open>$abcloop$<autoidx>\<close>, its
  node \<open>id3\<close>, the two port flags, the new count and workpool entry, the fan-ins of the
  successors redirected from \<open>id1\<close> to \<open>id3\<close>, the two edge sets swapped, and the
  connection that drives the new bit from the bit of \<open>id1\<close>.
\<close>

definition set_port :: "int \<Rightarrow> gate_t list \<Rightarrow> error + gate_t list" where
  "set_port i sl =
     (if 0 \<le> i \<and> nat i < length sl
      then Inr (sl[nat i := (sl ! nat i) \<lparr> is_port := True \<rparr>])
      else Inl IndexOutOfRange)"

definition redirect :: "int \<Rightarrow> int \<Rightarrow> gate_t \<Rightarrow> gate_t" where
  "redirect id1 id3 g =
     g \<lparr> in1 := (if in1 g = id1 then id3 else in1 g),
         in2 := (if in2 g = id1 then id3 else in2 g),
         in3 := (if in3 g = id1 then id3 else in3 g),
         in4 := (if in4 g = id1 then id3 else in4 g) \<rparr>"

fun redirect_fanins :: "int \<Rightarrow> int \<Rightarrow> int list \<Rightarrow> gate_t list \<Rightarrow> error + gate_t list" where
  "redirect_fanins id1 id3 [] sl = Inr sl"
| "redirect_fanins id1 id3 (id2 # rest) sl =
     (if 0 \<le> id2 \<and> nat id2 < length sl
      then redirect_fanins id1 id3 rest (sl[nat id2 := redirect id1 id3 (sl ! nat id2)])
      else Inl IndexOutOfRange)"

definition swap_edges :: "int \<Rightarrow> int \<Rightarrow> edge_map \<Rightarrow> edge_map" where
  "swap_edges id1 id3 es =
     (let s1 = edges_at es id1; s3 = edges_at es id3
      in map_assign id1 s3 (map_assign id3 s1 es))"

definition break_at ::
  "(SigBit \<Rightarrow> SigBit) \<Rightarrow> (SigBit \<Rightarrow> State) \<Rightarrow> int \<Rightarrow> loop_state \<Rightarrow> error + loop_state" where
  "break_at assign_map initvals id1 s =
     (case gate_at (signal_list (reg s)) id1 of Inl e \<Rightarrow> Inl e | Inr g1 \<Rightarrow>
      if bit_wire (gate_bit g1) = None then Inl AssertFailed
      else
        let wname = ''$abcloop$'' @ string_of_int (autoidx s);
            wire = \<lparr> name = wname, width = 1 \<rparr>
        in (case map_signal assign_map initvals (reg s) (WireBit wire 0) G_NONE (-1) (-1) (-1) (-1) of
              Inl e \<Rightarrow> Inl e
            | Inr (id3, r1) \<Rightarrow>
               (case set_port id1 (signal_list r1) of Inl e \<Rightarrow> Inl e | Inr sl2 \<Rightarrow>
                (case set_port id3 sl2 of Inl e \<Rightarrow> Inl e | Inr sl3 \<Rightarrow>
                 if id3 \<noteq> int (length (in_edges_count s)) then Inl AssertFailed
                 else
                   (case redirect_fanins id1 id3 (edges_at (edges s) id1) sl3 of
                      Inl e \<Rightarrow> Inl e
                    | Inr sl4 \<Rightarrow>
                       (case gate_at sl4 id3 of Inl e \<Rightarrow> Inl e | Inr g3 \<Rightarrow>
                        (case gate_at sl4 id1 of Inl e \<Rightarrow> Inl e | Inr g1' \<Rightarrow>
                           Inr (s \<lparr> reg := r1 \<lparr> signal_list := sl4 \<rparr>,
                                   host := connect (addWire (host s) wname)
                                             ([gate_bit g3], [gate_bit g1']),
                                   autoidx := autoidx s + 1,
                                   edges := swap_edges id1 id3 (edges s),
                                   in_edges_count := in_edges_count s @ [0],
                                   workpool := set_insert id3 (workpool s) \<rparr>))))))))"

subsection \<open>Termination of the two loops\<close>

text \<open>
  The measure counts each remaining edge six times, or twice when its source is in the
  workpool, and adds the number of keys and the size of the workpool. Removing a node,
  erasing a key without successors and breaking a loop all decrease it, in every state.
\<close>

definition weight :: "int_set \<Rightarrow> int \<times> int_set \<Rightarrow> nat" where
  "weight wp e = (if fst e \<in> set wp then 2 else 6) * length (snd e)"

definition loop_measure :: "loop_state \<Rightarrow> nat" where
  "loop_measure s =
     sum_list (map (weight (workpool s)) (edges s)) + length (edges s) + length (workpool s)"

lemma pick_result: "pick sl es id1 id2 = Inr i \<Longrightarrow> i = id1 \<or> i = id2"
  by (auto simp: pick_def split: sum.splits option.splits if_splits)

lemma pick_scan_result: "pick_scan sl es id1 ks = Inr i \<Longrightarrow> i = id1 \<or> i \<in> set ks"
proof (induction ks arbitrary: id1)
  case Nil
  then show ?case by simp
next
  case (Cons k ks)
  then obtain j where j: "pick sl es id1 k = Inr j" and r: "pick_scan sl es j ks = Inr i"
    by (auto split: sum.splits)
  from pick_result [OF j] Cons.IH [OF r] show ?case by auto
qed

lemma choose_break_key:
  assumes "choose_break sl es = Inr i"
  shows "i \<in> fst ` set es"
proof (cases es)
  case Nil
  with assms show ?thesis by (simp add: choose_break_def)
next
  case (Cons e rest)
  with assms have "pick_scan sl es (fst e) (map fst es) = Inr i"
    by (simp add: choose_break_def)
  from pick_scan_result [OF this] Cons show ?thesis by auto
qed

lemma sum_weight_filter: "sum_list (map (weight wp) (filter P es)) \<le> sum_list (map (weight wp) es)"
  by (induction es) auto

lemma length_map_erase: "length (map_erase k es) \<le> length es"
  by (simp add: map_erase_def)

lemma length_map_erase_key: "k \<in> fst ` set es \<Longrightarrow> length (map_erase k es) < length es"
  unfolding map_erase_def
  by (auto intro: length_filter_less)

lemma sum_weight_erase:
  "sum_list (map (weight wp) (map_erase k es)) + weight wp (k, edges_at es k)
     \<le> sum_list (map (weight wp) es)"
proof (induction es)
  case Nil
  then show ?case by (simp add: map_erase_def edges_at_def weight_def)
next
  case (Cons e es)
  show ?case
  proof (cases "fst e = k")
    case True
    have "sum_list (map (weight wp) (map_erase k (e # es))) \<le> sum_list (map (weight wp) es)"
      using True sum_weight_filter [of wp "\<lambda>e. fst e \<noteq> k" es] by (simp add: map_erase_def)
    moreover have "weight wp (k, edges_at (e # es) k) = weight wp e"
      using True by (cases e) (simp add: edges_at_def weight_def)
    ultimately show ?thesis by simp
  next
    case False
    then have "edges_at (e # es) k = edges_at es k"
      by (cases e) (simp add: edges_at_def)
    with False Cons show ?thesis by (simp add: map_erase_def)
  qed
qed

lemma sum_weight_mono:
  "(\<And>e. e \<in> set es \<Longrightarrow> fst e \<in> set wp \<Longrightarrow> fst e \<in> set wp') \<Longrightarrow>
   sum_list (map (weight wp') es) \<le> sum_list (map (weight wp) es)"
proof (induction es)
  case Nil
  then show ?case by simp
next
  case (Cons e es)
  have "weight wp' e \<le> weight wp e"
    using Cons.prems [of e] by (auto simp: weight_def)
  moreover have "sum_list (map (weight wp') es) \<le> sum_list (map (weight wp) es)"
    using Cons.prems by (intro Cons.IH) auto
  ultimately show ?case by simp
qed

lemma sum_list_insort_key:
  "sum_list (map f (insort_key g x xs)) = f x + sum_list (map (f::_ \<Rightarrow> nat) xs)"
  by (induction xs) auto

lemma length_map_assign: "length (map_assign k s es) \<le> Suc (length es)"
  by (simp add: map_assign_def length_map_erase)

lemma sum_weight_assign:
  "sum_list (map (weight wp) (map_assign k s es)) =
     weight wp (k, s) + sum_list (map (weight wp) (map_erase k es))"
  by (simp add: map_assign_def sum_list_insort_key)

lemma sum_filter_insort_key:
  "sum_list (map f (filter P (insort_key g x xs))) =
     (if P x then f x else 0) + sum_list (map (f::_ \<Rightarrow> nat) (filter P xs))"
  by (induction xs) auto

lemma length_filter_insort_key:
  "length (filter P (insort_key g x xs)) = (if P x then 1 else 0) + length (filter P xs)"
  by (induction xs) auto

lemma filter_insort_same:
  "filter (\<lambda>e. fst e \<noteq> k) (insort_key fst (k, v) xs) = filter (\<lambda>e. fst e \<noteq> k) xs"
  by (induction xs) auto

lemma edges_at_erase_other: "k' \<noteq> k \<Longrightarrow> edges_at (map_erase k es) k' = edges_at es k'"
  unfolding edges_at_def map_erase_def
  by (induction es) auto

lemma measure_erase_key:
  assumes "k \<in> fst ` set (edges s)"
  shows "loop_measure (s \<lparr> edges := map_erase k (edges s) \<rparr>) < loop_measure s"
proof -
  have "sum_list (map (weight (workpool s)) (map_erase k (edges s)))
          \<le> sum_list (map (weight (workpool s)) (edges s))"
    unfolding map_erase_def by (rule sum_weight_filter)
  moreover have "length (map_erase k (edges s)) < length (edges s)"
    using assms by (rule length_map_erase_key)
  ultimately show ?thesis by (simp add: loop_measure_def)
qed

lemma measure_swap:
  assumes key: "id1 \<in> fst ` set es" and ne: "edges_at es id1 \<noteq> []"
  shows "sum_list (map (weight [id3]) (swap_edges id1 id3 es)) + length (swap_edges id1 id3 es) + 1
           < sum_list (map (weight []) es) + length es"
proof -
  let ?s1 = "edges_at es id1" and ?s3 = "edges_at es id3"
  let ?c = "length ?s1"
  have c: "?c \<ge> 1" using ne by (cases ?s1) auto
  have e1: "sum_list (map (weight []) (map_erase id1 es)) + 6 * ?c \<le> sum_list (map (weight []) es)"
    using sum_weight_erase [of "[]" id1 es] by (simp add: weight_def)
  have l1: "length (map_erase id1 es) < length es" using key by (rule length_map_erase_key)
  show ?thesis
  proof (cases "id1 = id3")
    case True
    have sw: "swap_edges id3 id3 es = insort_key fst (id3, edges_at es id3) (map_erase id3 es)"
      by (simp add: swap_edges_def Let_def map_assign_def map_erase_def filter_insort_same)
    have "sum_list (map (weight [id3]) (swap_edges id3 id3 es))
            = 2 * length (edges_at es id3) + sum_list (map (weight [id3]) (map_erase id3 es))"
      by (simp add: sw sum_list_insort_key weight_def)
    moreover have "sum_list (map (weight [id3]) (map_erase id3 es))
                    \<le> sum_list (map (weight []) (map_erase id3 es))"
      by (rule sum_weight_mono) simp
    moreover have "length (swap_edges id3 id3 es) = Suc (length (map_erase id3 es))"
      by (simp add: sw)
    ultimately show ?thesis using e1 l1 c unfolding True by linarith
  next
    case False
    let ?rest = "filter (\<lambda>e. fst e \<noteq> id1) (filter (\<lambda>e. fst e \<noteq> id3) es)"
    have sw: "swap_edges id1 id3 es =
                insort_key fst (id1, ?s3)
                  (filter (\<lambda>e. fst e \<noteq> id1) (insort_key fst (id3, ?s1) (filter (\<lambda>e. fst e \<noteq> id3) es)))"
      by (simp add: swap_edges_def Let_def map_assign_def map_erase_def)
    have s: "sum_list (map (weight [id3]) (swap_edges id1 id3 es))
             = 6 * length ?s3 + 2 * ?c + sum_list (map (weight [id3]) ?rest)"
      using False by (simp add: sw sum_list_insort_key sum_filter_insort_key weight_def)
    have l: "length (swap_edges id1 id3 es) = 2 + length ?rest"
      using False by (simp add: sw length_filter_insort_key)
    have comm: "?rest = map_erase id3 (map_erase id1 es)"
      by (simp add: map_erase_def conj_commute)
    have e3: "sum_list (map (weight []) (map_erase id3 (map_erase id1 es))) + 6 * length ?s3
               \<le> sum_list (map (weight []) (map_erase id1 es))"
      using sum_weight_erase [of "[]" id3 "map_erase id1 es"] False
      by (simp add: weight_def edges_at_erase_other)
    have m: "sum_list (map (weight [id3]) ?rest) \<le> sum_list (map (weight []) ?rest)"
      by (rule sum_weight_mono) simp
    have l3: "length ?rest \<le> length (map_erase id1 es)"
      unfolding comm by (rule length_map_erase)
    show ?thesis using s l e1 e3 m l1 l3 c unfolding comm by linarith
  qed
qed

lemma break_at_result:
  assumes "break_at am iv id1 s = Inr s'"
  shows "\<exists>id3. edges s' = swap_edges id1 id3 (edges s) \<and> workpool s' = set_insert id3 (workpool s)"
  using assms unfolding break_at_def Let_def
  by (auto split: sum.splits if_splits prod.splits)

lemma measure_break_at:
  assumes run: "break_at am iv id1 s = Inr s'"
      and wp: "workpool s = []"
      and key: "id1 \<in> fst ` set (edges s)" and ne: "edges_at (edges s) id1 \<noteq> []"
  shows "loop_measure s' < loop_measure s"
proof -
  from break_at_result [OF run] wp obtain id3 where
    e: "edges s' = swap_edges id1 id3 (edges s)" and w: "workpool s' = [id3]"
    by (auto simp: set_insert_def)
  from measure_swap [OF key ne, of id3] show ?thesis
    by (simp add: loop_measure_def e w wp)
qed

text \<open>
  The inner loop \<^verbatim>\<open>while (workpool.size() == 0)\<close> (lines 547-617).
\<close>

function break_loops ::
  "(SigBit \<Rightarrow> SigBit) \<Rightarrow> (SigBit \<Rightarrow> State) \<Rightarrow> loop_state \<Rightarrow> error + loop_state" where
  "break_loops assign_map initvals s =
     (if workpool s \<noteq> [] then Inr s
      else if edges s = [] then Inr s
      else (case choose_break (signal_list (reg s)) (edges s) of
              Inl e \<Rightarrow> Inl e
            | Inr id1 \<Rightarrow>
                if edges_at (edges s) id1 = []
                then break_loops assign_map initvals (s \<lparr> edges := map_erase id1 (edges s) \<rparr>)
                else (case break_at assign_map initvals id1 s of
                        Inl e \<Rightarrow> Inl e
                      | Inr s' \<Rightarrow> break_loops assign_map initvals s')))"
  by pat_completeness auto

termination break_loops
proof (relation "measure (\<lambda>(am, iv, s). loop_measure s)")
  show "wf (measure (\<lambda>(am, iv, s). loop_measure s))" by simp
next
  fix am :: "SigBit \<Rightarrow> SigBit" and iv :: "SigBit \<Rightarrow> State" and s :: loop_state and id1
  assume "choose_break (signal_list (reg s)) (edges s) = Inr id1"
  then have "id1 \<in> fst ` set (edges s)" by (rule choose_break_key)
  then show "((am, iv, s \<lparr> edges := map_erase id1 (edges s) \<rparr>), am, iv, s)
              \<in> measure (\<lambda>(am, iv, s). loop_measure s)"
    by (simp add: measure_erase_key)
next
  fix am :: "SigBit \<Rightarrow> SigBit" and iv :: "SigBit \<Rightarrow> State" and s s' :: loop_state and id1
  assume "\<not> workpool s \<noteq> []" "choose_break (signal_list (reg s)) (edges s) = Inr id1"
     "edges_at (edges s) id1 \<noteq> []" "break_at am iv id1 s = Inr s'"
  then show "((am, iv, s'), am, iv, s) \<in> measure (\<lambda>(am, iv, s). loop_measure s)"
    using measure_break_at [of am iv id1 s s'] choose_break_key [of "signal_list (reg s)" "edges s" id1]
    by simp
qed

declare break_loops.simps [simp del]

lemma break_loops_measure:
  "break_loops am iv s = Inr s' \<Longrightarrow> loop_measure s' \<le> loop_measure s"
proof (induction am iv s rule: break_loops.induct)
  case (1 am iv s)
  show ?case
  proof (cases "workpool s \<noteq> [] \<or> edges s = []")
    case True
    with "1.prems" show ?thesis by (subst (asm) break_loops.simps) (auto split: if_splits)
  next
    case False
    then have wp: "workpool s = []" and es: "edges s \<noteq> []" by auto
    from "1.prems" wp es obtain id1 where
      ch: "choose_break (signal_list (reg s)) (edges s) = Inr id1"
      by (subst (asm) break_loops.simps) (auto split: sum.splits)
    have key: "id1 \<in> fst ` set (edges s)" using ch by (rule choose_break_key)
    show ?thesis
    proof (cases "edges_at (edges s) id1 = []")
      case True
      with "1.prems" wp es ch
      have r: "break_loops am iv (s \<lparr> edges := map_erase id1 (edges s) \<rparr>) = Inr s'"
        by (subst (asm) break_loops.simps) simp
      have "loop_measure s' \<le> loop_measure (s \<lparr> edges := map_erase id1 (edges s) \<rparr>)"
        using "1.IH"(1) [OF _ _ ch True r] wp es by simp
      with measure_erase_key [OF key] show ?thesis by simp
    next
      case ne: False
      with "1.prems" wp es ch obtain s1 where
        b: "break_at am iv id1 s = Inr s1" and r: "break_loops am iv s1 = Inr s'"
        by (subst (asm) break_loops.simps) (auto split: sum.splits)
      have "loop_measure s' \<le> loop_measure s1"
        using "1.IH"(2) [OF _ _ ch ne b r] wp es by simp
      with measure_break_at [OF b wp key ne] show ?thesis by simp
    qed
  qed
qed

lemma set_insert_props: "set wp \<subseteq> set (set_insert x wp)" "length (set_insert x wp) \<le> Suc (length wp)"
  by (auto simp: set_insert_def set_insort_key)

lemma release_successors_workpool:
  "release_successors ss (cs, wp) = Inr (cs', wp') \<Longrightarrow>
     set wp \<subseteq> set wp' \<and> length wp' \<le> length wp + length ss"
proof (induction ss arbitrary: cs wp)
  case Nil
  then show ?case by simp
next
  case (Cons id2 rest)
  let ?c = "cs ! nat id2 - 1"
  let ?wp1 = "if ?c = 0 then set_insert id2 wp else wp"
  from Cons.prems have r: "release_successors rest (cs[nat id2 := ?c], ?wp1) = Inr (cs', wp')"
    by (simp add: Let_def split: if_splits)
  from Cons.IH [OF r] have "set ?wp1 \<subseteq> set wp'" "length wp' \<le> length ?wp1 + length rest"
    by auto
  moreover have "set wp \<subseteq> set ?wp1" "length ?wp1 \<le> Suc (length wp)"
    using set_insert_props [where wp = wp and x = id2] by (auto split: if_splits)
  ultimately show ?case by auto
qed

lemma measure_remove_node:
  assumes run: "remove_node s = Inr s1"
  shows "loop_measure s1 < loop_measure s"
proof -
  from run obtain i rest where wp: "workpool s = i # rest"
    by (cases "workpool s") (auto simp: remove_node_def)
  let ?ss = "edges_at (edges s) i"
  from run wp obtain cs wp1 where
    rel: "release_successors ?ss (in_edges_count s, set_erase i (workpool s)) = Inr (cs, wp1)" and
    s1: "s1 = s \<lparr> edges := map_erase i (edges s), in_edges_count := cs, workpool := wp1 \<rparr>"
    by (auto simp: remove_node_def split: sum.splits)
  from release_successors_workpool [OF rel] have
    sub: "set (set_erase i (workpool s)) \<subseteq> set wp1" and
    len: "length wp1 \<le> length (set_erase i (workpool s)) + length ?ss"
    by auto
  have "length (set_erase i (workpool s)) < length (workpool s)"
    using wp length_removeAll_less [of i "workpool s"] by (simp add: set_erase_def)
  with len have l: "length wp1 + 1 \<le> length (workpool s) + length ?ss" by simp
  have m: "sum_list (map (weight wp1) (map_erase i (edges s)))
            \<le> sum_list (map (weight (workpool s)) (map_erase i (edges s)))"
  proof (rule sum_weight_mono)
    fix e assume "e \<in> set (map_erase i (edges s))" "fst e \<in> set (workpool s)"
    then have "fst e \<in> set (set_erase i (workpool s))"
      by (auto simp: map_erase_def set_erase_def)
    with sub show "fst e \<in> set wp1" by auto
  qed
  have "weight (workpool s) (i, ?ss) = 2 * length ?ss"
    using wp by (simp add: weight_def)
  with sum_weight_erase [of "workpool s" i "edges s"]
  have e: "sum_list (map (weight (workpool s)) (map_erase i (edges s))) + 2 * length ?ss
            \<le> sum_list (map (weight (workpool s)) (edges s))"
    by simp
  have le: "length (map_erase i (edges s)) \<le> length (edges s)" by (rule length_map_erase)
  show ?thesis using l m e le by (simp add: loop_measure_def s1)
qed

text \<open>
  The outer loop \<^verbatim>\<open>while (workpool.size() > 0)\<close> (lines 531-618) and \<^verbatim>\<open>handle_loops\<close>
  itself, which builds the graph and runs the loop.
\<close>

function handle_loops_run ::
  "(SigBit \<Rightarrow> SigBit) \<Rightarrow> (SigBit \<Rightarrow> State) \<Rightarrow> loop_state \<Rightarrow> error + loop_state" where
  "handle_loops_run assign_map initvals s =
     (if workpool s = [] then Inr s
      else (case remove_node s of
              Inl e \<Rightarrow> Inl e
            | Inr s1 \<Rightarrow>
                (case break_loops assign_map initvals s1 of
                   Inl e \<Rightarrow> Inl e
                 | Inr s2 \<Rightarrow> handle_loops_run assign_map initvals s2)))"
  by pat_completeness auto

termination handle_loops_run
proof (relation "measure (\<lambda>(am, iv, s). loop_measure s)")
  show "wf (measure (\<lambda>(am, iv, s). loop_measure s))" by simp
next
  fix am :: "SigBit \<Rightarrow> SigBit" and iv :: "SigBit \<Rightarrow> State" and s s1 s2 :: loop_state
  assume "remove_node s = Inr s1" "break_loops am iv s1 = Inr s2"
  then have "loop_measure s1 < loop_measure s" "loop_measure s2 \<le> loop_measure s1"
    by (auto intro: measure_remove_node break_loops_measure)
  then show "((am, iv, s2), am, iv, s) \<in> measure (\<lambda>(am, iv, s). loop_measure s)"
    by simp
qed

declare handle_loops_run.simps [simp del]

definition handle_loops ::
  "(SigBit \<Rightarrow> SigBit) \<Rightarrow> (SigBit \<Rightarrow> State) \<Rightarrow> registry \<Rightarrow> Module \<Rightarrow> int \<Rightarrow> error + loop_state" where
  "handle_loops assign_map initvals r m idx =
     (case build_graph (signal_list r) ([], replicate (length (signal_list r)) 0, []) of
        Inl e \<Rightarrow> Inl e
      | Inr (es, cs, wp) \<Rightarrow>
          handle_loops_run assign_map initvals
            \<lparr> reg = r, host = m, autoidx = idx, edges = es, in_edges_count = cs, workpool = wp \<rparr>)"

text \<open>
  Notions used to state the properties of the loop breaker: the fan-ins of a
  combinational node (no edges lead into a node of kind \<open>G_NONE\<close> or \<open>G_FF\<close>), the wire of
  the node with a given id, the two naming conventions, and the comparison that the scan
  of \<open>choose_break\<close> implements (\<open>not_preferred sl es k c\<close>: the scan does not replace the
  candidate \<open>c\<close> by \<open>k\<close>).
\<close>

definition comb_fanins :: "gate_t \<Rightarrow> int list" where
  "comb_fanins g =
     (if gate_type g = G_NONE \<or> gate_type g = G_FF then []
      else filter (\<lambda>i. i \<ge> 0) [in1 g, in2 g, in3 g, in4 g])"

definition node_wire :: "gate_t list \<Rightarrow> int \<Rightarrow> Wire option" where
  "node_wire sl k = (case gate_at sl k of Inl e \<Rightarrow> None | Inr g \<Rightarrow> bit_wire (gate_bit g))"

definition internal_named :: "Wire \<Rightarrow> bool" where
  "internal_named w \<longleftrightarrow> first_char (name w) = CHR ''$''"

definition user_named :: "Wire \<Rightarrow> bool" where
  "user_named w \<longleftrightarrow> first_char (name w) = CHR 0x5C"

definition names_ok :: "gate_t list \<Rightarrow> int \<Rightarrow> bool" where
  "names_ok sl k \<longleftrightarrow> (\<forall>w. node_wire sl k = Some w \<longrightarrow> internal_named w \<or> user_named w)"

definition not_preferred :: "gate_t list \<Rightarrow> edge_map \<Rightarrow> int \<Rightarrow> int \<Rightarrow> bool" where
  "not_preferred sl es k c \<longleftrightarrow>
     (case node_wire sl k of
        None \<Rightarrow> True
      | Some wk \<Rightarrow>
          (case node_wire sl c of
             None \<Rightarrow> False
           | Some wc \<Rightarrow>
               (internal_named wk \<and> user_named wc) \<or>
               (user_named wk = user_named wc \<and>
                (length (edges_at es k) < length (edges_at es c) \<or>
                 (length (edges_at es k) = length (edges_at es c) \<and>
                  \<not> str_less (name wk) (name wc))))))"

section \<open>Clock-domain partitioner\<close>

text \<open>
  The partitioner in \<^verbatim>\<open>OrloPass::execute\<close> (lines 2040-2167). A cell pointer
  \<^verbatim>\<open>RTLIL::Cell *\<close> is its address, which orders every \<^verbatim>\<open>std::set<RTLIL::Cell*>\<close>; a cell
  carries its address, its name, its type and its connections (port name and signal).
  The key of a domain is the tuple \<^verbatim>\<open>clkdomain_t\<close> of clock polarity, clock signal, enable
  polarity and enable signal.
\<close>

type_synonym clkdomain_t = "bool \<times> SigSpec \<times> bool \<times> SigSpec"

record Cell =
  addr :: int
  cell_name :: string
  cell_type :: string
  cell_conns :: "(string \<times> SigSpec) list"

text \<open>
  The local sets and maps. Sets of cells are lists of addresses in increasing order (as
  for the loop breaker); the vectors of \<^verbatim>\<open>assigned_cells\<close> are lists in the order of
  \<^verbatim>\<open>push_back\<close>; maps are partial functions, read through \<open>at_or_empty\<close> where the C++
  uses \<^verbatim>\<open>operator[]\<close>, which makes an empty entry for a new key. A \<^verbatim>\<open>std::set<SigBit>\<close>
  is the list of its bits without repetition; the order in which the C++ iterates over
  it (the host's order of \<^verbatim>\<open>SigBit\<close>) only decides the order of the cells inside one
  vector.
\<close>

record part_state =
  unassigned_cells :: int_set
  expand_queue :: int_set
  next_expand_queue :: int_set
  expand_queue_up :: int_set
  next_expand_queue_up :: int_set
  expand_queue_down :: int_set
  next_expand_queue_down :: int_set
  assigned_cells :: "clkdomain_t \<rightharpoonup> int list"
  assigned_cells_reverse :: "int \<rightharpoonup> clkdomain_t"
  cell_to_bit :: "int \<rightharpoonup> SigBit list"
  cell_to_bit_up :: "int \<rightharpoonup> SigBit list"
  cell_to_bit_down :: "int \<rightharpoonup> SigBit list"
  bit_to_cell :: "SigBit \<rightharpoonup> int_set"
  bit_to_cell_up :: "SigBit \<rightharpoonup> int_set"
  bit_to_cell_down :: "SigBit \<rightharpoonup> int_set"

definition at_or_empty :: "('k \<rightharpoonup> 'v list) \<Rightarrow> 'k \<Rightarrow> 'v list" where
  "at_or_empty m k = (case m k of None \<Rightarrow> [] | Some v \<Rightarrow> v)"

definition bit_insert :: "SigBit \<Rightarrow> SigBit list \<Rightarrow> SigBit list" where
  "bit_insert b bs = (if b \<in> set bs then bs else bs @ [b])"

text \<open>
  The two statements \<^verbatim>\<open>assigned_cells[key].push_back(c)\<close> and
  \<^verbatim>\<open>assigned_cells_reverse[c] = key\<close>, which every assignment of a cell makes.
\<close>

definition push_cell :: "clkdomain_t \<Rightarrow> int \<Rightarrow> part_state \<Rightarrow> part_state" where
  "push_cell key c st =
     st \<lparr> assigned_cells := (assigned_cells st)(key \<mapsto> at_or_empty (assigned_cells st) key @ [c]),
          assigned_cells_reverse := (assigned_cells_reverse st)(c \<mapsto> key) \<rparr>"

text \<open>
  The first loop (lines 2056-2098). \<open>index_bit\<close> is the body of the loop over the bits
  of one connection, with the port directions \<^verbatim>\<open>ct.cell_input\<close> and \<^verbatim>\<open>ct.cell_output\<close> of
  the host as parameters; \<open>ff_key\<close> is the key of a flip-flop cell (\<open>None\<close> for any other
  cell, for which the loop continues), where \<^verbatim>\<open>getPort\<close> throws for a port the cell does
  not have; \<open>seed_cells\<close> is the loop.
\<close>

definition index_bit ::
  "(string \<Rightarrow> string \<Rightarrow> bool) \<Rightarrow> (string \<Rightarrow> string \<Rightarrow> bool) \<Rightarrow> Cell \<Rightarrow> string \<Rightarrow> SigBit \<Rightarrow>
   part_state \<Rightarrow> part_state" where
  "index_bit cell_input cell_output cell port b st =
     (if bit_wire b \<noteq> None
      then
        let c = addr cell;
            st1 = st \<lparr> cell_to_bit := (cell_to_bit st)(c \<mapsto> bit_insert b (at_or_empty (cell_to_bit st) c)),
                       bit_to_cell := (bit_to_cell st)(b \<mapsto> set_insert c (at_or_empty (bit_to_cell st) b)) \<rparr>;
            st2 = (if cell_input (cell_type cell) port
                   then st1 \<lparr> cell_to_bit_up :=
                                (cell_to_bit_up st1)(c \<mapsto> bit_insert b (at_or_empty (cell_to_bit_up st1) c)),
                              bit_to_cell_down :=
                                (bit_to_cell_down st1)(b \<mapsto> set_insert c (at_or_empty (bit_to_cell_down st1) b)) \<rparr>
                   else st1)
        in (if cell_output (cell_type cell) port
            then st2 \<lparr> cell_to_bit_down :=
                         (cell_to_bit_down st2)(c \<mapsto> bit_insert b (at_or_empty (cell_to_bit_down st2) c)),
                       bit_to_cell_up :=
                         (bit_to_cell_up st2)(b \<mapsto> set_insert c (at_or_empty (bit_to_cell_up st2) b)) \<rparr>
            else st2)
      else st)"

definition index_cell ::
  "(SigBit \<Rightarrow> SigBit) \<Rightarrow> (string \<Rightarrow> string \<Rightarrow> bool) \<Rightarrow> (string \<Rightarrow> string \<Rightarrow> bool) \<Rightarrow> Cell \<Rightarrow>
   part_state \<Rightarrow> part_state" where
  "index_cell assign_map cell_input cell_output cell st =
     fold (\<lambda>conn. fold (\<lambda>b. index_bit cell_input cell_output cell (fst conn) (assign_map b)) (snd conn))
          (cell_conns cell) st"

definition getPort :: "Cell \<Rightarrow> string \<Rightarrow> error + SigSpec" where
  "getPort cell port = (case map_of (cell_conns cell) port of None \<Rightarrow> Inl StdOutOfRange | Some s \<Rightarrow> Inr s)"

definition ff_key :: "(SigBit \<Rightarrow> SigBit) \<Rightarrow> Cell \<Rightarrow> error + clkdomain_t option" where
  "ff_key assign_map cell =
     (if cell_type cell \<in> {''$_DFF_N_'', ''$_DFF_P_''}
      then (case getPort cell ''C'' of
              Inl e \<Rightarrow> Inl e
            | Inr c \<Rightarrow> Inr (Some (cell_type cell = ''$_DFF_P_'', map assign_map c, True, [])))
      else if cell_type cell \<in> {''$_DFFE_NN_'', ''$_DFFE_NP_'', ''$_DFFE_PN_'', ''$_DFFE_PP_''}
      then (let this_clk_pol = cell_type cell \<in> {''$_DFFE_PN_'', ''$_DFFE_PP_''};
                this_en_pol = cell_type cell \<in> {''$_DFFE_NP_'', ''$_DFFE_PP_''}
            in case getPort cell ''C'' of
                 Inl e \<Rightarrow> Inl e
               | Inr c \<Rightarrow>
                   (case getPort cell ''E'' of
                      Inl e \<Rightarrow> Inl e
                    | Inr en \<Rightarrow> Inr (Some (this_clk_pol, map assign_map c, this_en_pol, map assign_map en))))
      else Inr None)"

fun seed_cells ::
  "(SigBit \<Rightarrow> SigBit) \<Rightarrow> (string \<Rightarrow> string \<Rightarrow> bool) \<Rightarrow> (string \<Rightarrow> string \<Rightarrow> bool) \<Rightarrow> Cell list \<Rightarrow>
   part_state \<Rightarrow> error + part_state" where
  "seed_cells assign_map cell_input cell_output [] st = Inr st"
| "seed_cells assign_map cell_input cell_output (cell # rest) st =
     (let st1 = index_cell assign_map cell_input cell_output cell st
      in case ff_key assign_map cell of
           Inl e \<Rightarrow> Inl e
         | Inr None \<Rightarrow> seed_cells assign_map cell_input cell_output rest st1
         | Inr (Some key) \<Rightarrow>
             seed_cells assign_map cell_input cell_output rest
               (push_cell key (addr cell)
                  (st1 \<lparr> unassigned_cells := set_erase (addr cell) (unassigned_cells st1),
                         expand_queue := set_insert (addr cell) (expand_queue st1),
                         expand_queue_up := set_insert (addr cell) (expand_queue_up st1),
                         expand_queue_down := set_insert (addr cell) (expand_queue_down st1) \<rparr>)))"

text \<open>
  The body of the three inner loops: a cell that is still unassigned joins the domain
  \<open>key\<close>. In the downward expansion the C++ inserts the cell into
  \<^verbatim>\<open>next_expand_queue_up\<close> as well (line 2129), so \<open>absorb_down\<close> equals \<open>absorb_up\<close>.
\<close>

definition absorb_up :: "clkdomain_t \<Rightarrow> int \<Rightarrow> part_state \<Rightarrow> part_state" where
  "absorb_up key c st =
     (if c \<in> set (unassigned_cells st)
      then push_cell key c
             (st \<lparr> unassigned_cells := set_erase c (unassigned_cells st),
                   next_expand_queue_up := set_insert c (next_expand_queue_up st),
                   expand_queue := set_insert c (expand_queue st) \<rparr>)
      else st)"

definition absorb_down :: "clkdomain_t \<Rightarrow> int \<Rightarrow> part_state \<Rightarrow> part_state" where
  "absorb_down key c st =
     (if c \<in> set (unassigned_cells st)
      then push_cell key c
             (st \<lparr> unassigned_cells := set_erase c (unassigned_cells st),
                   next_expand_queue_up := set_insert c (next_expand_queue_up st),
                   expand_queue := set_insert c (expand_queue st) \<rparr>)
      else st)"

definition absorb_any :: "clkdomain_t \<Rightarrow> int \<Rightarrow> part_state \<Rightarrow> part_state" where
  "absorb_any key c st =
     (if c \<in> set (unassigned_cells st)
      then push_cell key c
             (st \<lparr> unassigned_cells := set_erase c (unassigned_cells st),
                   next_expand_queue := set_insert c (next_expand_queue st) \<rparr>)
      else st)"

text \<open>
  One round of the directed expansion (lines 2102-2139): the first cell of the upward
  queue, then the first cell of the downward queue, then the swap of the queues when
  both are empty. \<^verbatim>\<open>assigned_cells_reverse.at(cell)\<close> throws for a cell without a domain.
\<close>

definition step_up :: "part_state \<Rightarrow> error + part_state" where
  "step_up st =
     (case expand_queue_up st of
        [] \<Rightarrow> Inr st
      | cell # _ \<Rightarrow>
          (case assigned_cells_reverse st cell of
             None \<Rightarrow> Inl StdOutOfRange
           | Some key \<Rightarrow>
               Inr (fold (\<lambda>b s. fold (absorb_up key) (at_or_empty (bit_to_cell_up s) b) s)
                         (at_or_empty (cell_to_bit_up st) cell)
                         (st \<lparr> expand_queue_up := set_erase cell (expand_queue_up st) \<rparr>))))"

definition step_down :: "part_state \<Rightarrow> error + part_state" where
  "step_down st =
     (case expand_queue_down st of
        [] \<Rightarrow> Inr st
      | cell # _ \<Rightarrow>
          (case assigned_cells_reverse st cell of
             None \<Rightarrow> Inl StdOutOfRange
           | Some key \<Rightarrow>
               Inr (fold (\<lambda>b s. fold (absorb_down key) (at_or_empty (bit_to_cell_down s) b) s)
                         (at_or_empty (cell_to_bit_down st) cell)
                         (st \<lparr> expand_queue_down := set_erase cell (expand_queue_down st) \<rparr>))))"

definition swap_directed :: "part_state \<Rightarrow> part_state" where
  "swap_directed st =
     (if expand_queue_up st = [] \<and> expand_queue_down st = []
      then st \<lparr> expand_queue_up := next_expand_queue_up st,
                next_expand_queue_up := expand_queue_up st,
                expand_queue_down := next_expand_queue_down st,
                next_expand_queue_down := expand_queue_down st \<rparr>
      else st)"

text \<open>
  One round of the undirected closure (lines 2144-2160); \<^verbatim>\<open>cell_to_bit.at(cell)\<close> throws
  for a cell that touches no wire bit.
\<close>

definition step_any :: "part_state \<Rightarrow> error + part_state" where
  "step_any st =
     (case expand_queue st of
        [] \<Rightarrow> Inr st
      | cell # _ \<Rightarrow>
          (case assigned_cells_reverse st cell of
             None \<Rightarrow> Inl StdOutOfRange
           | Some key \<Rightarrow>
               (case cell_to_bit st cell of
                  None \<Rightarrow> Inl StdOutOfRange
                | Some bits \<Rightarrow>
                    Inr (fold (\<lambda>b s. (fold (absorb_any key) (at_or_empty (bit_to_cell s) b) s)
                                        \<lparr> bit_to_cell := (bit_to_cell s)(b \<mapsto> []) \<rparr>)
                              bits
                              (st \<lparr> expand_queue := set_erase cell (expand_queue st) \<rparr>)))))"

definition swap_any :: "part_state \<Rightarrow> part_state" where
  "swap_any st =
     (if expand_queue st = []
      then st \<lparr> expand_queue := next_expand_queue st, next_expand_queue := expand_queue st \<rparr>
      else st)"

text \<open>
  The default domain of the cells that are still unassigned (lines 2163-2167), and the
  state before the first loop.
\<close>

definition default_key :: clkdomain_t where
  "default_key = (True, [], True, [])"

definition assign_rest :: "part_state \<Rightarrow> part_state" where
  "assign_rest st = fold (push_cell default_key) (unassigned_cells st) st"

definition initial_state :: "Cell list \<Rightarrow> part_state" where
  "initial_state all_cells =
     \<lparr> unassigned_cells = fold set_insert (map addr all_cells) [],
       expand_queue = [], next_expand_queue = [],
       expand_queue_up = [], next_expand_queue_up = [],
       expand_queue_down = [], next_expand_queue_down = [],
       assigned_cells = Map.empty, assigned_cells_reverse = Map.empty,
       cell_to_bit = Map.empty, cell_to_bit_up = Map.empty, cell_to_bit_down = Map.empty,
       bit_to_cell = Map.empty, bit_to_cell_up = Map.empty, bit_to_cell_down = Map.empty \<rparr>"

subsection \<open>Termination of the two expansions\<close>

definition directed_measure :: "part_state \<Rightarrow> nat" where
  "directed_measure st =
     2 * length (unassigned_cells st) + length (expand_queue_up st) + length (expand_queue_down st)
     + length (next_expand_queue_up st) + length (next_expand_queue_down st)"

definition closure_measure :: "part_state \<Rightarrow> nat" where
  "closure_measure st =
     2 * length (unassigned_cells st) + length (expand_queue st) + length (next_expand_queue st)"

lemma fold_measure_le:
  fixes m :: "'s \<Rightarrow> nat"
  assumes "\<And>x s. m (f x s) \<le> m s"
  shows "m (fold f xs s) \<le> m s"
proof (induction xs arbitrary: s)
  case Nil
  show ?case by simp
next
  case (Cons x xs)
  have "m (fold f xs (f x s)) \<le> m (f x s)" by (rule Cons.IH)
  also have "\<dots> \<le> m s" by (rule assms)
  finally show ?case by simp
qed

lemma length_set_erase_less: "c \<in> set xs \<Longrightarrow> length (set_erase c xs) < length xs"
  by (simp add: set_erase_def length_removeAll_less)

lemma length_set_insert_le: "length (set_insert c xs) \<le> Suc (length xs)"
  by (simp add: set_insert_def)

lemma absorb_up_measure: "directed_measure (absorb_up key c st) \<le> directed_measure st"
  using length_set_erase_less [of c "unassigned_cells st"] length_set_insert_le [of c "next_expand_queue_up st"]
  by (auto simp: absorb_up_def push_cell_def directed_measure_def)

lemma absorb_down_measure: "directed_measure (absorb_down key c st) \<le> directed_measure st"
  using length_set_erase_less [of c "unassigned_cells st"] length_set_insert_le [of c "next_expand_queue_up st"]
  by (auto simp: absorb_down_def push_cell_def directed_measure_def)

lemma absorb_any_measure: "closure_measure (absorb_any key c st) \<le> closure_measure st"
  using length_set_erase_less [of c "unassigned_cells st"] length_set_insert_le [of c "next_expand_queue st"]
  by (auto simp: absorb_any_def push_cell_def closure_measure_def)

lemma step_up_measure:
  assumes "step_up st = Inr st1"
  shows "directed_measure st1 \<le> directed_measure st"
    and "expand_queue_up st \<noteq> [] \<Longrightarrow> directed_measure st1 < directed_measure st"
proof -
  show "directed_measure st1 \<le> directed_measure st"
  proof (cases "expand_queue_up st")
    case Nil
    with assms show ?thesis by (simp add: step_up_def)
  next
    case (Cons cell rest)
    with assms obtain key where
      st1: "st1 = fold (\<lambda>b s. fold (absorb_up key) (at_or_empty (bit_to_cell_up s) b) s)
                         (at_or_empty (cell_to_bit_up st) cell)
                         (st \<lparr> expand_queue_up := set_erase cell (expand_queue_up st) \<rparr>)"
      by (auto simp: step_up_def split: option.splits)
    have "directed_measure st1 \<le> directed_measure (st \<lparr> expand_queue_up := set_erase cell (expand_queue_up st) \<rparr>)"
      unfolding st1
      by (intro fold_measure_le) (rule absorb_up_measure)
    also have "\<dots> < directed_measure st"
      using length_set_erase_less [of cell "expand_queue_up st"] Cons
      by (simp add: directed_measure_def)
    finally show ?thesis by simp
  qed
  show "directed_measure st1 < directed_measure st" if "expand_queue_up st \<noteq> []"
  proof -
    from that obtain cell rest where Cons: "expand_queue_up st = cell # rest"
      by (cases "expand_queue_up st") auto
    with assms obtain key where
      st1: "st1 = fold (\<lambda>b s. fold (absorb_up key) (at_or_empty (bit_to_cell_up s) b) s)
                         (at_or_empty (cell_to_bit_up st) cell)
                         (st \<lparr> expand_queue_up := set_erase cell (expand_queue_up st) \<rparr>)"
      by (auto simp: step_up_def split: option.splits)
    have "directed_measure st1 \<le> directed_measure (st \<lparr> expand_queue_up := set_erase cell (expand_queue_up st) \<rparr>)"
      unfolding st1
      by (intro fold_measure_le) (rule absorb_up_measure)
    also have "\<dots> < directed_measure st"
      using length_set_erase_less [of cell "expand_queue_up st"] Cons
      by (simp add: directed_measure_def)
    finally show ?thesis .
  qed
qed

lemma step_down_measure:
  assumes "step_down st = Inr st1"
  shows "directed_measure st1 \<le> directed_measure st"
    and "expand_queue_down st \<noteq> [] \<Longrightarrow> directed_measure st1 < directed_measure st"
proof -
  have main: "directed_measure st1 < directed_measure st" if "expand_queue_down st \<noteq> []"
  proof -
    from that obtain cell rest where Cons: "expand_queue_down st = cell # rest"
      by (cases "expand_queue_down st") auto
    with assms obtain key where
      st1: "st1 = fold (\<lambda>b s. fold (absorb_down key) (at_or_empty (bit_to_cell_down s) b) s)
                         (at_or_empty (cell_to_bit_down st) cell)
                         (st \<lparr> expand_queue_down := set_erase cell (expand_queue_down st) \<rparr>)"
      by (auto simp: step_down_def split: option.splits)
    have "directed_measure st1 \<le> directed_measure (st \<lparr> expand_queue_down := set_erase cell (expand_queue_down st) \<rparr>)"
      unfolding st1
      by (intro fold_measure_le) (rule absorb_down_measure)
    also have "\<dots> < directed_measure st"
      using length_set_erase_less [of cell "expand_queue_down st"] Cons
      by (simp add: directed_measure_def)
    finally show ?thesis .
  qed
  then show "expand_queue_down st \<noteq> [] \<Longrightarrow> directed_measure st1 < directed_measure st" .
  show "directed_measure st1 \<le> directed_measure st"
  proof (cases "expand_queue_down st = []")
    case True
    with assms show ?thesis by (simp add: step_down_def)
  next
    case False
    from main [OF False] show ?thesis by simp
  qed
qed

lemma step_up_keeps_down:
  assumes "step_up st = Inr st1"
  shows "expand_queue_down st1 = expand_queue_down st"
proof -
  have a: "expand_queue_down (absorb_up key c s) = expand_queue_down s" for key c s
    by (simp add: absorb_up_def push_cell_def)
  have b: "expand_queue_down (fold (absorb_up key) cs s) = expand_queue_down s" for key cs s
    by (induction cs arbitrary: s) (simp_all add: a)
  have c: "expand_queue_down (fold (\<lambda>b s. fold (absorb_up key) (g s b) s) bs s) = expand_queue_down s"
    for key bs s and g :: "part_state \<Rightarrow> SigBit \<Rightarrow> int list"
    by (induction bs arbitrary: s) (simp_all add: b)
  from assms show ?thesis
    by (auto simp: step_up_def c split: list.splits option.splits)
qed

lemma swap_directed_measure: "directed_measure (swap_directed st) = directed_measure st"
  by (simp add: swap_directed_def directed_measure_def)

text \<open>
  The directed expansion \<^verbatim>\<open>while (!expand_queue_up.empty() || !expand_queue_down.empty())\<close>
  (lines 2100-2140).
\<close>

function expand_directed :: "part_state \<Rightarrow> error + part_state" where
  "expand_directed st =
     (if expand_queue_up st = [] \<and> expand_queue_down st = [] then Inr st
      else (case step_up st of
              Inl e \<Rightarrow> Inl e
            | Inr st1 \<Rightarrow>
                (case step_down st1 of
                   Inl e \<Rightarrow> Inl e
                 | Inr st2 \<Rightarrow> expand_directed (swap_directed st2))))"
  by pat_completeness auto

termination expand_directed
proof (relation "measure directed_measure")
  show "wf (measure directed_measure)" by simp
next
  fix st st1 st2 :: part_state
  assume ne: "\<not> (expand_queue_up st = [] \<and> expand_queue_down st = [])"
     and u: "step_up st = Inr st1" and d: "step_down st1 = Inr st2"
  have "directed_measure st2 < directed_measure st"
  proof (cases "expand_queue_up st = []")
    case False
    from step_up_measure(2) [OF u False] step_down_measure(1) [OF d] show ?thesis by simp
  next
    case True
    with ne have "expand_queue_down st \<noteq> []" by simp
    then have "expand_queue_down st1 \<noteq> []" using step_up_keeps_down [OF u] by simp
    from step_down_measure(2) [OF d this] step_up_measure(1) [OF u] show ?thesis by simp
  qed
  then show "(swap_directed st2, st) \<in> measure directed_measure"
    by (simp add: swap_directed_measure)
qed

declare expand_directed.simps [simp del]

lemma step_any_measure:
  assumes "step_any st = Inr st1" "expand_queue st \<noteq> []"
  shows "closure_measure st1 < closure_measure st"
proof -
  from assms(2) obtain cell rest where Cons: "expand_queue st = cell # rest"
    by (cases "expand_queue st") auto
  with assms(1) obtain key bits where
    st1: "st1 = fold (\<lambda>b s. (fold (absorb_any key) (at_or_empty (bit_to_cell s) b) s)
                                        \<lparr> bit_to_cell := (bit_to_cell s)(b \<mapsto> []) \<rparr>)
                              bits
                              (st \<lparr> expand_queue := set_erase cell (expand_queue st) \<rparr>)"
    by (auto simp: step_any_def split: option.splits)
  have inner: "closure_measure ((fold (absorb_any key) cs s) \<lparr> bit_to_cell := bc \<rparr>) \<le> closure_measure s"
    for cs s bc
  proof -
    have "closure_measure ((fold (absorb_any key) cs s) \<lparr> bit_to_cell := bc \<rparr>)
            = closure_measure (fold (absorb_any key) cs s)"
      by (simp add: closure_measure_def)
    also have "\<dots> \<le> closure_measure s"
      by (intro fold_measure_le) (rule absorb_any_measure)
    finally show ?thesis .
  qed
  have "closure_measure st1 \<le> closure_measure (st \<lparr> expand_queue := set_erase cell (expand_queue st) \<rparr>)"
    unfolding st1 by (intro fold_measure_le) (rule inner)
  also have "\<dots> < closure_measure st"
    using length_set_erase_less [of cell "expand_queue st"] Cons
    by (simp add: closure_measure_def)
  finally show ?thesis .
qed

lemma swap_any_measure: "closure_measure (swap_any st) = closure_measure st"
  by (simp add: swap_any_def closure_measure_def)

text \<open>
  The undirected closure \<^verbatim>\<open>while (!expand_queue.empty())\<close> (lines 2142-2161), and the
  whole partitioner.
\<close>

function expand_closure :: "part_state \<Rightarrow> error + part_state" where
  "expand_closure st =
     (if expand_queue st = [] then Inr st
      else (case step_any st of
              Inl e \<Rightarrow> Inl e
            | Inr st1 \<Rightarrow> expand_closure (swap_any st1)))"
  by pat_completeness auto

termination expand_closure
proof (relation "measure closure_measure")
  show "wf (measure closure_measure)" by simp
next
  fix st st1 :: part_state
  assume "expand_queue st \<noteq> []" "step_any st = Inr st1"
  then show "(swap_any st1, st) \<in> measure closure_measure"
    using step_any_measure [of st st1] by (simp add: swap_any_measure)
qed

declare expand_closure.simps [simp del]

definition partition_cells ::
  "(SigBit \<Rightarrow> SigBit) \<Rightarrow> (string \<Rightarrow> string \<Rightarrow> bool) \<Rightarrow> (string \<Rightarrow> string \<Rightarrow> bool) \<Rightarrow> Cell list \<Rightarrow>
   error + part_state" where
  "partition_cells assign_map cell_input cell_output all_cells =
     (case seed_cells assign_map cell_input cell_output all_cells (initial_state all_cells) of
        Inl e \<Rightarrow> Inl e
      | Inr st1 \<Rightarrow>
          (case expand_directed st1 of
             Inl e \<Rightarrow> Inl e
           | Inr st2 \<Rightarrow>
               (case expand_closure st2 of
                  Inl e \<Rightarrow> Inl e
                | Inr st3 \<Rightarrow> Inr (assign_rest st3))))"

text \<open>
  The domain of a cell in the result of the partitioner, and the invariant of the three
  components that decide it: with \<open>A\<close> the addresses of the selected cells and \<open>rem\<close> the
  cells not yet in a vector.
\<close>

definition domain_of :: "error + part_state \<Rightarrow> int \<Rightarrow> clkdomain_t option" where
  "domain_of res c = (case res of Inl e \<Rightarrow> None | Inr st \<Rightarrow> assigned_cells_reverse st c)"

definition part_inv ::
  "int set \<Rightarrow> int list \<Rightarrow> (clkdomain_t \<rightharpoonup> int list) \<Rightarrow> (int \<rightharpoonup> clkdomain_t) \<Rightarrow> bool" where
  "part_inv A rem asg rv \<longleftrightarrow>
     distinct rem \<and> set rem \<subseteq> A \<and> dom rv = A - set rem \<and>
     (\<forall>c key. c \<in> set (at_or_empty asg key) \<longleftrightarrow> rv c = Some key) \<and>
     (\<forall>key. distinct (at_or_empty asg key)) \<and>
     (\<forall>key cells. asg key = Some cells \<longrightarrow> cells \<noteq> [])"

definition part_ok :: "int set \<Rightarrow> part_state \<Rightarrow> bool" where
  "part_ok A st \<longleftrightarrow>
     part_inv A (unassigned_cells st) (assigned_cells st) (assigned_cells_reverse st)"

definition rev_grows :: "part_state \<Rightarrow> part_state \<Rightarrow> bool" where
  "rev_grows st st' \<longleftrightarrow>
     (\<forall>c k. assigned_cells_reverse st c = Some k \<longrightarrow> assigned_cells_reverse st' c = Some k)"

text \<open>
  The connectivity the partitioner follows. A cell touches the wire bits of its
  connections, after the signal map; two cells share a bit when they touch a common one;
  \<open>comp_keys\<close> are the clock-domain keys of the recognised flip-flops that a cell reaches
  through any chain of shared bits.
\<close>

definition wbits :: "(SigBit \<Rightarrow> SigBit) \<Rightarrow> SigSpec \<Rightarrow> SigBit set" where
  "wbits am sig = {am b | b. b \<in> set sig \<and> bit_wire (am b) \<noteq> None}"

definition bits_of :: "(SigBit \<Rightarrow> SigBit) \<Rightarrow> (string \<times> SigSpec) list \<Rightarrow> SigBit set" where
  "bits_of am conns = (\<Union>conn \<in> set conns. wbits am (snd conn))"

definition touch :: "(SigBit \<Rightarrow> SigBit) \<Rightarrow> Cell list \<Rightarrow> int \<Rightarrow> SigBit set" where
  "touch am cells a = (\<Union>c \<in> {c \<in> set cells. addr c = a}. bits_of am (cell_conns c))"

definition shares :: "(SigBit \<Rightarrow> SigBit) \<Rightarrow> Cell list \<Rightarrow> (int \<times> int) set" where
  "shares am cells = {(a, a'). touch am cells a \<inter> touch am cells a' \<noteq> {}}"

definition ff_at :: "(SigBit \<Rightarrow> SigBit) \<Rightarrow> Cell list \<Rightarrow> int \<Rightarrow> clkdomain_t \<Rightarrow> bool" where
  "ff_at am cells a k \<longleftrightarrow> (\<exists>c \<in> set cells. addr c = a \<and> ff_key am c = Inr (Some k))"

definition comp_keys :: "(SigBit \<Rightarrow> SigBit) \<Rightarrow> Cell list \<Rightarrow> int \<Rightarrow> clkdomain_t set" where
  "comp_keys am cells a = {k. \<exists>f. (a, f) \<in> (shares am cells)\<^sup>* \<and> ff_at am cells f k}"





















section \<open>Concrete inputs used by the examples\<close>

definition w_a :: Wire where "w_a = \<lparr> name = CHR 0x5C # ''a'', width = 1 \<rparr>"

definition reg2 :: registry where
  "reg2 = \<lparr> signal_list =
      [\<lparr> gate_id = 0, gate_type = G_NONE, in1 = -1, in2 = -1, in3 = -1, in4 = -1,
         is_port = False, gate_bit = WireBit w_a 0, gate_init = Sx \<rparr>,
       \<lparr> gate_id = 1, gate_type = G_NONE, in1 = -1, in2 = -1, in3 = -1, in4 = -1,
         is_port = False, gate_bit = ConstBit S1, gate_init = Sx \<rparr>],
     signal_map = [WireBit w_a 0 \<mapsto> 0, ConstBit S1 \<mapsto> 1] \<rparr>"

definition nand_gate :: gate_t where
  "nand_gate = \<lparr> gate_id = 2, gate_type = G_NAND, in1 = 0, in2 = 1, in3 = -1, in4 = -1,
                 is_port = False, gate_bit = WireBit w_a 0, gate_init = Sx \<rparr>"

definition w_counter :: Wire where
  "w_counter = \<lparr> name = CHR 0x5C # ''counter'', width = 8 \<rparr>"

definition plain_gate :: "int \<Rightarrow> SigBit \<Rightarrow> gate_t" where
  "plain_gate i b = \<lparr> gate_id = i, gate_type = G_NONE, in1 = -1, in2 = -1, in3 = -1, in4 = -1,
                      is_port = False, gate_bit = b, gate_init = Sx \<rparr>"

definition sl8 :: "gate_t list" where
  "sl8 = map (\<lambda>i. plain_gate (int i) (WireBit w_counter (int i - 4))) [0..<8]"

definition w_x :: Wire where "w_x = \<lparr> name = CHR 0x5C # ''x'', width = 1 \<rparr>"
definition w_y :: Wire where "w_y = \<lparr> name = CHR 0x5C # ''y'', width = 1 \<rparr>"
definition abc_x :: Wire where "abc_x = \<lparr> name = ''$abc$5$x'', width = 1 \<rparr>"
definition abc_y :: Wire where "abc_y = \<lparr> name = ''$abc$5$y'', width = 1 \<rparr>"

definition sl_xy :: "gate_t list" where
  "sl_xy =
     [\<lparr> gate_id = 0, gate_type = G_NONE, in1 = -1, in2 = -1, in3 = -1, in4 = -1,
        is_port = True, gate_bit = WireBit w_x 0, gate_init = Sx \<rparr>,
      \<lparr> gate_id = 1, gate_type = G_BUF, in1 = 0, in2 = -1, in3 = -1, in4 = -1,
        is_port = True, gate_bit = WireBit w_y 0, gate_init = Sx \<rparr>]"

definition mapped_xy :: Mapped where
  "mapped_xy = \<lparr> mapped_wires = [\<lparr> name = CHR 0x5C # ''ys__n0'', width = 1 \<rparr>,
                                 \<lparr> name = CHR 0x5C # ''ys__n1'', width = 1 \<rparr>] \<rparr>"

definition m_xy :: Module where
  "m_xy = \<lparr> wires = [w_x, w_y], connections = [] \<rparr>"

definition no_cells :: "Mapped \<Rightarrow> Module \<Rightarrow> error + Module" where
  "no_cells mapped_mod m = Inr m"

definition w_b :: Wire where "w_b = \<lparr> name = CHR 0x5C # ''b'', width = 1 \<rparr>"
definition w_c :: Wire where "w_c = \<lparr> name = CHR 0x5C # ''c'', width = 1 \<rparr>"

definition gate :: "int \<Rightarrow> gate_type_t \<Rightarrow> int \<Rightarrow> int \<Rightarrow> SigBit \<Rightarrow> gate_t" where
  "gate i t a b sb = \<lparr> gate_id = i, gate_type = t, in1 = a, in2 = b, in3 = -1, in4 = -1,
                       is_port = False, gate_bit = sb, gate_init = Sx \<rparr>"

definition ring :: registry where
  "ring = \<lparr> signal_list = [gate 0 G_NOT 1 (-1) (WireBit w_a 0), gate 1 G_NOT 0 (-1) (WireBit w_b 0)],
            signal_map = [WireBit w_a 0 \<mapsto> 0, WireBit w_b 0 \<mapsto> 1] \<rparr>"

definition fed_loop :: registry where
  "fed_loop = \<lparr> signal_list = [gate 0 G_NONE (-1) (-1) (WireBit w_a 0),
                               gate 1 G_AND 0 2 (WireBit w_b 0),
                               gate 2 G_NOT 1 (-1) (WireBit w_c 0)],
            signal_map = [WireBit w_a 0 \<mapsto> 0, WireBit w_b 0 \<mapsto> 1, WireBit w_c 0 \<mapsto> 2] \<rparr>"

definition m0 :: Module where "m0 = \<lparr> wires = [w_a, w_b, w_c], connections = [] \<rparr>"

definition w_t :: Wire where "w_t = \<lparr> name = ''$t'', width = 1 \<rparr>"
definition w_u :: Wire where "w_u = \<lparr> name = CHR 0x5C # ''u'', width = 1 \<rparr>"

definition sl_pref :: "gate_t list" where
  "sl_pref = [gate 0 G_NOT 3 (-1) (ConstBit S0),
              gate 1 G_NOT 3 (-1) (WireBit w_t 0),
              gate 2 G_NOT 3 (-1) (WireBit w_u 0),
              gate 3 G_AOI3 0 1 (WireBit w_a 0) \<lparr> in3 := 2 \<rparr>]"

definition wire1 :: "string \<Rightarrow> SigBit" where
  "wire1 n = WireBit \<lparr> name = CHR 0x5C # n, width = 1 \<rparr> 0"

definition std_input :: "string \<Rightarrow> string \<Rightarrow> bool" where
  "std_input t p \<longleftrightarrow> p \<in> {''A'', ''B'', ''C'', ''D'', ''E'', ''S''}"

definition std_output :: "string \<Rightarrow> string \<Rightarrow> bool" where
  "std_output t p \<longleftrightarrow> p \<in> {''Y'', ''Q''}"

definition ff1 :: "int \<Rightarrow> Cell" where
  "ff1 a = \<lparr> addr = a, cell_name = ''ff1'', cell_type = ''$_DFF_P_'',
             cell_conns = [(''C'', [wire1 ''clk1'']), (''D'', [wire1 ''d1'']), (''Q'', [wire1 ''q1''])] \<rparr>"

definition ff2 :: "int \<Rightarrow> Cell" where
  "ff2 a = \<lparr> addr = a, cell_name = ''ff2'', cell_type = ''$_DFF_P_'',
             cell_conns = [(''C'', [wire1 ''clk2'']), (''D'', [wire1 ''d2'']), (''Q'', [wire1 ''q2''])] \<rparr>"

definition and_g :: "int \<Rightarrow> Cell" where
  "and_g a = \<lparr> addr = a, cell_name = ''g'', cell_type = ''$_AND_'',
             cell_conns = [(''A'', [wire1 ''q1'']), (''B'', [wire1 ''q2'']), (''Y'', [wire1 ''y''])] \<rparr>"

definition lone :: "int \<Rightarrow> Cell" where
  "lone a = \<lparr> addr = a, cell_name = ''h'', cell_type = ''$_NOT_'',
             cell_conns = [(''A'', [wire1 ''p'']), (''Y'', [wire1 ''r''])] \<rparr>"

definition clk1_key :: clkdomain_t where "clk1_key = (True, [wire1 ''clk1''], True, [])"
definition clk2_key :: clkdomain_t where "clk2_key = (True, [wire1 ''clk2''], True, [])"

definition cells_a :: "Cell list" where "cells_a = [ff1 1, ff2 2, and_g 3, lone 4]"

text \<open>
  Two clock domains that share no bit: an inverter on the output of the first flip-flop,
  and the same four cells under mirrored addresses, in the opposite order.
\<close>

definition buf1 :: "int \<Rightarrow> Cell" where
  "buf1 a = \<lparr> addr = a, cell_name = ''b'', cell_type = ''$_NOT_'',
             cell_conns = [(''A'', [wire1 ''q1'']), (''Y'', [wire1 ''y1''])] \<rparr>"

definition cells_c :: "Cell list" where "cells_c = [ff1 1, ff2 2, buf1 3, lone 4]"
definition cells_d :: "Cell list" where "cells_d = [lone 1, buf1 2, ff2 3, ff1 4]"


section \<open>The signal registry: registration and port marking\<close>

lemma registry_ok_empty: "registry_ok empty_registry"
  by (simp add: registry_ok_def empty_registry_def)

lemma map_signal_unseen:
  assumes ok: "registry_ok r" and un: "signal_map r (am sb) = None"
  shows "map_signal am iv r sb gt i1 i2 i3 i4 =
           Inr (int (length (signal_list r)),
                \<lparr> signal_list = signal_list r @ [set_gate gt i1 i2 i3 i4 (new_gate iv r (am sb))],
                  signal_map = (signal_map r)(am sb \<mapsto> int (length (signal_list r))) \<rparr>)"
  using un by (simp add: map_signal_def Let_def set_gate_def new_gate_def)

lemma map_signal_seen:
  assumes ok: "registry_ok r" and se: "signal_map r (am sb) = Some i"
  shows "map_signal am iv r sb gt i1 i2 i3 i4 =
           Inr (i, r \<lparr> signal_list := (signal_list r)[nat i := set_gate gt i1 i2 i3 i4 (signal_list r ! nat i)] \<rparr>)"
proof -
  from ok se have rng: "0 \<le> i" "nat i < length (signal_list r)" 
    by (auto simp: registry_ok_def)
  from ok rng have "gate_id (signal_list r ! nat i) = i"
    by (auto simp: registry_ok_def)
  then show ?thesis using se rng
    by (simp add: map_signal_def Let_def set_gate_def)
qed

lemma registry_ok_unseen:
  assumes ok: "registry_ok r" and un: "signal_map r b = None"
    and g: "gate_id g = int (length (signal_list r))" "gate_bit g = b"
  shows "registry_ok \<lparr> signal_list = signal_list r @ [g],
                  signal_map = (signal_map r)(b \<mapsto> int (length (signal_list r))) \<rparr>"
  using assms unfolding registry_ok_def
  apply (auto simp: nth_append less_Suc_eq)
  done

lemma registry_ok_update:
  assumes ok: "registry_ok r" and k: "k < length (signal_list r)"
    and g: "gate_id g = gate_id (signal_list r ! k)" "gate_bit g = gate_bit (signal_list r ! k)"
  shows "registry_ok (r \<lparr> signal_list := (signal_list r)[k := g] \<rparr>)"
  using assms unfolding registry_ok_def
  apply (auto simp: nth_list_update)
  done

text \<open>
  Claim C8. From a registry that satisfies its invariant, \<open>map_signal\<close> canonicalises the
  bit through the signal map; an unseen canonical bit gets the next dense id (the length
  of the list) and a node of kind \<open>G_NONE\<close> with the four fan-ins \<open>-1\<close>, not a port, with
  the initial value of the collaborator; a kind other than \<open>G_NONE\<close> overwrites the stored
  kind and each fan-in argument \<open>\<ge> 0\<close> overwrites its slot, the other fields and the other
  nodes staying as they were; the call returns the id (the pre-existing one for a seen
  bit) and never an error, the invariant holds again, and a further call on the same bit
  returns the same id.
\<close>

theorem map_signal_registers:
  assumes ok: "registry_ok r"
  shows "let b = am sb;
             n = length (signal_list r);
             idx = (case signal_map r b of None \<Rightarrow> int n | Some i \<Rightarrow> i);
             old = (case signal_map r b of None \<Rightarrow> new_gate iv r b | Some i \<Rightarrow> signal_list r ! nat i)
         in (signal_map r b = None \<longrightarrow>
               gate_type old = G_NONE \<and> in1 old = -1 \<and> in2 old = -1 \<and> in3 old = -1 \<and>
               in4 old = -1 \<and> \<not> is_port old \<and> gate_init old = iv b) \<and>
            (\<exists>r'. map_signal am iv r sb gt i1 i2 i3 i4 = Inr (idx, r') \<and>
               registry_ok r' \<and>
               signal_map r' = (signal_map r)(b \<mapsto> idx) \<and>
               length (signal_list r') = (if signal_map r b = None then Suc n else n) \<and>
               gate_id (signal_list r' ! nat idx) = idx \<and>
               gate_bit (signal_list r' ! nat idx) = b \<and>
               gate_type (signal_list r' ! nat idx) = (if gt \<noteq> G_NONE then gt else gate_type old) \<and>
               in1 (signal_list r' ! nat idx) = (if i1 \<ge> 0 then i1 else in1 old) \<and>
               in2 (signal_list r' ! nat idx) = (if i2 \<ge> 0 then i2 else in2 old) \<and>
               in3 (signal_list r' ! nat idx) = (if i3 \<ge> 0 then i3 else in3 old) \<and>
               in4 (signal_list r' ! nat idx) = (if i4 \<ge> 0 then i4 else in4 old) \<and>
               is_port (signal_list r' ! nat idx) = is_port old \<and>
               gate_init (signal_list r' ! nat idx) = gate_init old \<and>
               (\<forall>k < n. int k \<noteq> idx \<longrightarrow> signal_list r' ! k = signal_list r ! k) \<and>
               (\<exists>r''. map_signal am iv r' sb gt2 j1 j2 j3 j4 = Inr (idx, r'')))"
proof (cases "signal_map r (am sb)")
  case None
  let ?n = "length (signal_list r)"
  let ?g = "set_gate gt i1 i2 i3 i4 (new_gate iv r (am sb))"
  let ?r' = "\<lparr> signal_list = signal_list r @ [?g],
               signal_map = (signal_map r)(am sb \<mapsto> int ?n) \<rparr>"
  have run: "map_signal am iv r sb gt i1 i2 i3 i4 = Inr (int ?n, ?r')"
    using ok None by (rule map_signal_unseen)
  have ok': "registry_ok ?r'"
    using ok None by (rule registry_ok_unseen) (simp_all add: set_gate_def new_gate_def)
  have again: "map_signal am iv ?r' sb gt2 j1 j2 j3 j4 =
      Inr (int ?n, ?r' \<lparr> signal_list := (signal_list ?r')[nat (int ?n) :=
             set_gate gt2 j1 j2 j3 j4 (signal_list ?r' ! nat (int ?n))] \<rparr>)"
    using ok' by (rule map_signal_seen) simp
  show ?thesis
    unfolding Let_def using None ok' again
    by (simp add: run nth_append set_gate_def new_gate_def)
next
  case (Some i)
  let ?n = "length (signal_list r)"
  let ?g = "set_gate gt i1 i2 i3 i4 (signal_list r ! nat i)"
  let ?r' = "r \<lparr> signal_list := (signal_list r)[nat i := ?g] \<rparr>"
  from ok Some have rng: "0 \<le> i" "nat i < ?n" and bi: "gate_bit (signal_list r ! nat i) = am sb"
    by (auto simp: registry_ok_def)
  from ok rng have idi: "gate_id (signal_list r ! nat i) = i"
    by (auto simp: registry_ok_def)
  have run: "map_signal am iv r sb gt i1 i2 i3 i4 = Inr (i, ?r')"
    using ok Some by (rule map_signal_seen)
  have ok': "registry_ok ?r'"
    using ok rng(2) by (rule registry_ok_update) (simp_all add: set_gate_def)
  have sm: "signal_map ?r' (am sb) = Some i" using Some by simp
  have again: "map_signal am iv ?r' sb gt2 j1 j2 j3 j4 =
      Inr (i, ?r' \<lparr> signal_list := (signal_list ?r')[nat i :=
             set_gate gt2 j1 j2 j3 j4 (signal_list ?r' ! nat i)] \<rparr>)"
    using ok' sm by (rule map_signal_seen)
  have upd: "(signal_map r)(am sb \<mapsto> i) = signal_map r"
    using Some by (auto simp: fun_eq_iff)
  show ?thesis
    unfolding Let_def using Some ok' again rng bi idi upd
    by (simp add: run set_gate_def)
qed

theorem map_signal_registers_witness:
  "registry_ok empty_registry \<and>
   (\<exists>r'. map_signal id (\<lambda>b. Sx) empty_registry (WireBit w_a 0) G_NOT 0 (-1) (-1) (-1) = Inr (0, r') \<and>
      registry_ok r' \<and> length (signal_list r') = 1 \<and>
      gate_type (signal_list r' ! 0) = G_NOT \<and> in1 (signal_list r' ! 0) = 0 \<and>
      in2 (signal_list r' ! 0) = -1)"
proof -
  have ok: "registry_ok empty_registry"
    by (simp add: registry_ok_def empty_registry_def)
  have sm: "signal_map empty_registry (WireBit w_a 0) = None" "signal_list empty_registry = []"
    by (simp_all add: empty_registry_def)
  from map_signal_registers [OF ok, where am = id and sb = "WireBit w_a 0" and iv = "\<lambda>b. Sx"
      and gt = G_NOT and ?i1.0 = 0 and ?i2.0 = "-1" and ?i3.0 = "-1" and ?i4.0 = "-1"
      and ?gt2.0 = G_NONE and ?j1.0 = "-1" and ?j2.0 = "-1" and ?j3.0 = "-1" and ?j4.0 = "-1"]
  obtain r' where
    "map_signal id (\<lambda>b. Sx) empty_registry (WireBit w_a 0) G_NOT 0 (-1) (-1) (-1) = Inr (0, r')"
    "registry_ok r'" "length (signal_list r') = 1"
    "gate_type (signal_list r' ! 0) = G_NOT" "in1 (signal_list r' ! 0) = 0"
    "in2 (signal_list r' ! 0) = -1"
    unfolding Let_def by (auto simp: sm new_gate_def)
  with ok show ?thesis by blast
qed

lemma registry_ok_set_port:
  assumes ok: "registry_ok r" and k: "k < length (signal_list r)"
  shows "registry_ok (r \<lparr> signal_list := (signal_list r)[k := (signal_list r ! k) \<lparr> is_port := True \<rparr>] \<rparr>)"
  using ok k by (rule registry_ok_update) simp_all

lemma mark_port_bits_spec:
  assumes ok: "registry_ok r"
  shows "\<exists>r'. mark_port_bits r bs = Inr r' \<and> registry_ok r' \<and>
           signal_map r' = signal_map r \<and>
           length (signal_list r') = length (signal_list r) \<and>
           (\<forall>k < length (signal_list r).
              signal_list r' ! k = (signal_list r ! k)
                \<lparr> is_port := is_port (signal_list r ! k) \<or>
                     (\<exists>b \<in> set bs. bit_wire b \<noteq> None \<and> signal_map r b = Some (int k)) \<rparr>)"
  using ok
proof (induction bs arbitrary: r)
  case Nil
  then show ?case by simp
next
  case (Cons b bs)
  show ?case
  proof (cases "bit_wire b \<noteq> None \<and> signal_map r b \<noteq> None")
    case False
    from Cons.IH [OF Cons.prems] obtain r' where
      r': "mark_port_bits r bs = Inr r'" "registry_ok r'" "signal_map r' = signal_map r"
          "length (signal_list r') = length (signal_list r)"
          "\<forall>k < length (signal_list r).
              signal_list r' ! k = (signal_list r ! k)
                \<lparr> is_port := is_port (signal_list r ! k) \<or>
                     (\<exists>b \<in> set bs. bit_wire b \<noteq> None \<and> signal_map r b = Some (int k)) \<rparr>"
      by blast
    have "mark_port_bits r (b # bs) = Inr r'"
      using False r'(1) by auto
    moreover have "\<And>k. (\<exists>b' \<in> set (b # bs). bit_wire b' \<noteq> None \<and> signal_map r b' = Some (int k))
                  = (\<exists>b' \<in> set bs. bit_wire b' \<noteq> None \<and> signal_map r b' = Some (int k))"
      using False by auto
    ultimately show ?thesis using r' by simp
  next
    case True
    then obtain i where i: "signal_map r b = Some i" and wb: "bit_wire b \<noteq> None" by auto
    from Cons.prems i have rng: "0 \<le> i" "nat i < length (signal_list r)"
      by (auto simp: registry_ok_def)
    let ?r1 = "r \<lparr> signal_list := (signal_list r)[nat i := (signal_list r ! nat i) \<lparr> is_port := True \<rparr>] \<rparr>"
    have ok1: "registry_ok ?r1" using Cons.prems rng(2) by (rule registry_ok_set_port)
    from Cons.IH [OF ok1] obtain r' where
      r': "mark_port_bits ?r1 bs = Inr r'" "registry_ok r'" "signal_map r' = signal_map ?r1"
          "length (signal_list r') = length (signal_list ?r1)"
          "\<forall>k < length (signal_list ?r1).
              signal_list r' ! k = (signal_list ?r1 ! k)
                \<lparr> is_port := is_port (signal_list ?r1 ! k) \<or>
                     (\<exists>b \<in> set bs. bit_wire b \<noteq> None \<and> signal_map ?r1 b = Some (int k)) \<rparr>"
      by blast
    have run: "mark_port_bits r (b # bs) = Inr r'"
      using i wb rng r'(1) by simp
    have each: "signal_list r' ! k = (signal_list r ! k)
                \<lparr> is_port := is_port (signal_list r ! k) \<or>
                     (\<exists>b' \<in> set (b # bs). bit_wire b' \<noteq> None \<and> signal_map r b' = Some (int k)) \<rparr>"
      if k: "k < length (signal_list r)" for k
    proof (cases "k = nat i")
      case True
      then have "signal_map r b = Some (int k)" using i rng by simp
      then show ?thesis using r'(5) k True wb by auto
    next
      case False
      then have "signal_map r b \<noteq> Some (int k)" using i by auto
      then show ?thesis using r'(5) k False by auto
    qed
    show ?thesis using run r'(2,3,4) each by simp
  qed
qed

text \<open>
  Claim C10. \<open>mark_port\<close> returns without error, leaves the signal map and the length of
  the list as they were, and changes each node in its \<open>is_port\<close> field only: the flag
  becomes true exactly for the nodes that already had it or that hold a canonical bit of
  the signal which is backed by a wire and registered. A node whose bit is a constant (no
  backing wire) is left as it was.
\<close>

theorem mark_port_only_sets_wire_ports:
  assumes ok: "registry_ok r"
  shows "\<exists>r'. mark_port am r sig = Inr r' \<and>
           signal_map r' = signal_map r \<and>
           length (signal_list r') = length (signal_list r) \<and>
           (\<forall>k < length (signal_list r).
              signal_list r' ! k = (signal_list r ! k)
                \<lparr> is_port := is_port (signal_list r ! k) \<or>
                     (\<exists>b \<in> set sig. bit_wire (am b) \<noteq> None \<and> signal_map r (am b) = Some (int k)) \<rparr> \<and>
              (bit_wire (gate_bit (signal_list r ! k)) = None \<longrightarrow>
                 signal_list r' ! k = signal_list r ! k))"
proof -
  from mark_port_bits_spec [OF ok, of "map am sig"] obtain r' where
    r': "mark_port_bits r (map am sig) = Inr r'" "signal_map r' = signal_map r"
        "length (signal_list r') = length (signal_list r)"
        "\<forall>k < length (signal_list r).
              signal_list r' ! k = (signal_list r ! k)
                \<lparr> is_port := is_port (signal_list r ! k) \<or>
                     (\<exists>b \<in> set (map am sig). bit_wire b \<noteq> None \<and> signal_map r b = Some (int k)) \<rparr>"
    by blast
  have c: "signal_list r' ! k = signal_list r ! k"
    if k: "k < length (signal_list r)" and n: "bit_wire (gate_bit (signal_list r ! k)) = None" for k
  proof -
    have no: "\<not> (\<exists>b \<in> set (map am sig). bit_wire b \<noteq> None \<and> signal_map r b = Some (int k))"
    proof
      assume "\<exists>b \<in> set (map am sig). bit_wire b \<noteq> None \<and> signal_map r b = Some (int k)"
      then obtain b where b: "bit_wire b \<noteq> None" "signal_map r b = Some (int k)" by blast
      from ok b(2) have "gate_bit (signal_list r ! nat (int k)) = b"
        unfolding registry_ok_def by blast
      then have "gate_bit (signal_list r ! k) = b" by simp
      with n b(1) show False by simp
    qed
    from r'(4) k have "signal_list r' ! k = (signal_list r ! k)
                \<lparr> is_port := is_port (signal_list r ! k) \<or>
                     (\<exists>b \<in> set (map am sig). bit_wire b \<noteq> None \<and> signal_map r b = Some (int k)) \<rparr>"
      by blast
    also have "\<dots> = (signal_list r ! k) \<lparr> is_port := is_port (signal_list r ! k) \<rparr>"
      using no by presburger
    finally show ?thesis by simp
  qed
  have d: "(\<exists>b \<in> set (map am sig). bit_wire b \<noteq> None \<and> signal_map r b = Some (int k))
         = (\<exists>b \<in> set sig. bit_wire (am b) \<noteq> None \<and> signal_map r (am b) = Some (int k))" for k
    by auto
  show ?thesis
    unfolding mark_port_def using r'(1,2,3) r'(4)[unfolded d] c by blast
qed

theorem mark_port_only_sets_wire_ports_witness:
  "registry_ok reg2 \<and>
   (\<exists>r'. mark_port id reg2 [ConstBit S1, WireBit w_a 0] = Inr r' \<and>
      map is_port (signal_list r') = [True, False])"
proof -
  have ok: "registry_ok reg2"
    unfolding registry_ok_def reg2_def by (auto simp: less_Suc_eq split: if_splits)
  from mark_port_only_sets_wire_ports [OF ok, of id "[ConstBit S1, WireBit w_a 0]"]
  obtain r' where r': "mark_port id reg2 [ConstBit S1, WireBit w_a 0] = Inr r'"
    "length (signal_list r') = length (signal_list reg2)"
    "\<forall>k < length (signal_list reg2).
              signal_list r' ! k = (signal_list reg2 ! k)
                \<lparr> is_port := is_port (signal_list reg2 ! k) \<or>
                     (\<exists>b \<in> set [ConstBit S1, WireBit w_a 0]. bit_wire (id b) \<noteq> None \<and>
                        signal_map reg2 (id b) = Some (int k)) \<rparr>"
    by blast
  from r'(2) have len: "length (signal_list r') = 2" by (simp add: reg2_def)
  from r'(3) have "is_port (signal_list r' ! 0)" "\<not> is_port (signal_list r' ! 1)"
    by (simp_all add: reg2_def)
  with len have "map is_port (signal_list r') = [True, False]"
    by (cases "signal_list r'"; cases "tl (signal_list r')") auto
  with ok r'(1) show ?thesis by (intro conjI exI [of _ r']) simp_all
qed

section \<open>Truth tables of the emitted covers\<close>

lemma take6_names: "take 6 (names_line ids) = ''.names''"
  by (simp add: names_line_def)

text \<open>
  Claim C2. For every gate kind that writes a \<^verbatim>\<open>.names\<close> block and every input
  combination of its arity, the rows written by the emitter, read as a sum-of-products
  cover, give the value of the gate's Boolean function; and the rows of a NAND node are
  exactly \<^verbatim>\<open>0- 1\<close> and \<^verbatim>\<open>-0 1\<close>.
\<close>

theorem names_rows_match_gate_function:
  assumes "gate_function (gate_type si) vs = Some y"
  shows "eval_cover (cover_rows (emit_gate si)) vs = y \<and>
         (gate_type si = G_NAND \<longrightarrow> cover_rows (emit_gate si) = [''0- 1'', ''-0 1''])"
  using assms
  by (elim gate_function.elims)
     (auto simp: emit_gate_def cover_rows_def take6_names eval_cover_def row_asserts_def lit_matches_def)

theorem names_rows_match_gate_function_witness:
  "gate_function (gate_type nand_gate) [True, False] = Some True \<and>
   eval_cover (cover_rows (emit_gate nand_gate)) [True, False] = True \<and>
   cover_rows (emit_gate nand_gate) = [''0- 1'', ''-0 1'']"
proof -
  have h: "gate_function (gate_type nand_gate) [True, False] = Some True"
    by (simp add: nand_gate_def)
  have t: "gate_type nand_gate = G_NAND"
    by (simp add: nand_gate_def)
  from names_rows_match_gate_function [OF h] t h show ?thesis
    by blast
qed

section \<open>Name remapping of a node that has a wire\<close>

lemma lt10_cases: "(d::nat) < 10 \<Longrightarrow> d \<in> {0, 1, 2, 3, 4, 5, 6, 7, 8, 9}"
  by auto

lemma digit_char_is_digit: "d < 10 \<Longrightarrow> is_digit (digit_char d)"
  by (drule lt10_cases) (auto simp: is_digit_def digit_char_def)

lemma digit_val_digit_char: "d < 10 \<Longrightarrow> digit_val (digit_char d) = d"
  by (drule lt10_cases) (auto simp: digit_val_def digit_char_def)

lemma string_of_nat_digits: "\<forall>c \<in> set (string_of_nat n). is_digit c"
proof (induction n rule: string_of_nat.induct)
  case (1 n)
  show ?case
  proof (cases "n < 10")
    case True
    then show ?thesis by (subst string_of_nat.simps) (simp add: digit_char_is_digit)
  next
    case False
    with 1 show ?thesis by (subst string_of_nat.simps) (simp add: digit_char_is_digit)
  qed
qed

lemma string_of_nat_nonempty: "string_of_nat n \<noteq> []"
  by (subst string_of_nat.simps) simp

lemma string_of_nat_value:
  "foldl (\<lambda>a c. 10 * a + digit_val c) 0 (string_of_nat n) = n"
proof (induction n rule: string_of_nat.induct)
  case (1 n)
  show ?case
  proof (cases "n < 10")
    case True
    then show ?thesis by (subst string_of_nat.simps) (simp add: digit_val_digit_char)
  next
    case False
    with 1 show ?thesis by (subst string_of_nat.simps) (simp add: digit_val_digit_char)
  qed
qed

lemma takeWhile_digits:
  assumes "postfix = [] \<or> \<not> is_digit (hd postfix)"
  shows "takeWhile is_digit (string_of_nat n @ postfix) = string_of_nat n"
    and "dropWhile is_digit (string_of_nat n @ postfix) = postfix"
  using assms string_of_nat_digits [of n]
  by (cases postfix; simp add: takeWhile_append dropWhile_append)+

lemma atoi_string_of_nat:
  assumes "postfix = [] \<or> \<not> is_digit (hd postfix)" and "n \<le> INT_MAX"
  shows "atoi (string_of_nat n @ postfix) = Inr (int n)"
  using assms by (simp add: atoi_def takeWhile_digits string_of_nat_value)

text \<open>
  Claim C7, as amended. For a node with id \<open>sid\<close> in the signal list whose bit belongs to a
  wire, \<open>remap_name\<close> applied to the internal name \<^verbatim>\<open>ys__n<sid>\<close> (after the leading
  character of the identifier, with an optional \<^verbatim>\<open>new_\<close> prefix and an optional postfix
  that does not start with a digit) returns \<^verbatim>\<open>$abc$<map_autoidx>$<wire name>\<close>, the
  wire name without its leading character, followed by \<^verbatim>\<open>[<offset>]\<close> when the width of
  the wire is not 1, by \<^verbatim>\<open>_new\<close> when the prefix was there, and by the postfix; and it
  reports the wire as the original wire.
\<close>

theorem remap_name_of_wire_node:
  assumes rng: "0 \<le> sid" "nat sid < length sl" "nat sid \<le> INT_MAX"
      and node: "gate_bit (sl ! nat sid) = WireBit w off"
      and nm: "name w = c # wname"
      and pre: "pre = [] \<or> pre = ''new_''"
      and post: "postfix = [] \<or> \<not> is_digit (hd postfix)"
  shows "remap_name map_autoidx sl (c0 # pre @ ''ys__n'' @ string_of_int sid @ postfix) =
           Inr (''$abc$'' @ string_of_int map_autoidx @ ''$'' @ wname
                @ (if width w \<noteq> 1 then ''['' @ string_of_int off @ '']'' else [])
                @ (if pre = ''new_'' then ''_new'' else [])
                @ postfix,
                Some w)"
proof -
  let ?ds = "string_of_nat (nat sid)"
  have si: "string_of_int sid = ?ds" using rng(1) by (simp add: string_of_int_def)
  obtain d ds where dds: "?ds = d # ds"
    using string_of_nat_nonempty [of "nat sid"] by (cases ?ds) auto
  have dd: "is_digit d" using string_of_nat_digits [of "nat sid"] dds by simp
  have at: "atoi (d # ds @ postfix) = Inr sid"
    using atoi_string_of_nat [OF post rng(3)] rng(1) dds by simp
  have dw: "dropWhile is_digit (d # ds @ postfix) = postfix"
    using takeWhile_digits(2) [OF post, of "nat sid"] dds by simp
  have lt: "sid < int (length sl)" using rng by linarith
  from pre show ?thesis
  proof
    assume "pre = []"
    then show ?thesis
      using at dw lt node nm dd
      by (simp add: remap_name_def starts_with_def Let_def si dds abc_prefix_def c_str_plus1_def)
  next
    assume "pre = ''new_''"
    then show ?thesis
      using at dw lt node nm dd
      by (simp add: remap_name_def starts_with_def Let_def si dds abc_prefix_def c_str_plus1_def)
  qed
qed

theorem remap_name_of_wire_node_witness:
  "(0::int) \<le> 7 \<and> nat 7 < length sl8 \<and> nat 7 \<le> INT_MAX \<and>
   gate_bit (sl8 ! nat 7) = WireBit w_counter 3 \<and>
   name w_counter = CHR 0x5C # ''counter'' \<and>
   remap_name 42 sl8 (CHR 0x5C # ''ys__n'' @ string_of_int 7) = Inr (''$abc$42$counter[3]'', Some w_counter)"
proof -
  have h: "(0::int) \<le> 7" "nat 7 < length sl8" "nat 7 \<le> INT_MAX"
    "gate_bit (sl8 ! nat 7) = WireBit w_counter 3" "name w_counter = CHR 0x5C # ''counter''"
    by (simp_all add: sl8_def plain_gate_def INT_MAX_def w_counter_def upt_rec)
  have w: "width w_counter \<noteq> 1" by (simp add: w_counter_def)
  have s: "string_of_int 42 = ''42''" "string_of_int 3 = ''3''"
    by (simp_all add: string_of_int_def string_of_nat.simps digit_char_def)
  from remap_name_of_wire_node [OF h, of "[]" "[]" 42 "CHR 0x5C"]
  have "remap_name 42 sl8 (CHR 0x5C # ''ys__n'' @ string_of_int 7) = Inr (''$abc$42$counter[3]'', Some w_counter)"
    by (simp add: w s)
  with h show ?thesis by simp
qed

text \<open>
  Claim C7 as stated lets the name carry a postfix and gives the result without it. With
  the postfix \<^verbatim>\<open>_x\<close> the result ends in the postfix.
\<close>

theorem remap_name_postfix_counterexample:
  "remap_name 42 sl8 (CHR 0x5C # ''ys__n7_x'') = Inr (''$abc$42$counter[3]_x'', Some w_counter) \<and>
   remap_name 42 sl8 (CHR 0x5C # ''ys__n7_x'') \<noteq> Inr (''$abc$42$counter[3]'', Some w_counter)"
  by (simp add: remap_name_def starts_with_def atoi_def is_digit_def digit_val_def INT_MAX_def
      abc_prefix_def string_of_int_def string_of_nat.simps digit_char_def c_str_plus1_def
      sl8_def plain_gate_def w_counter_def Let_def upt_rec)

section \<open>Reintegration: boundary connections and the missing output file\<close>

lemma module_wire_connect [simp]: "module_wire (connect m c) nm = module_wire m nm"
  by (simp add: module_wire_def connect_def)

lemma connect_ports_spec:
  "connect_ports ai sl xs m = Inr m' \<Longrightarrow>
     wires m' = wires m \<and> set (connections m) \<subseteq> set (connections m') \<and>
     (\<forall>si \<in> set xs. is_port si \<longrightarrow>
        (\<exists>nm ow w. remap_name ai sl (CHR 0x5C # ys_name (gate_id si)) = Inr (nm, ow) \<and>
           module_wire m nm = Some w \<and> port_conn si w \<in> set (connections m')))"
proof (induction xs arbitrary: m)
  case Nil
  then show ?case by simp
next
  case (Cons si rest)
  show ?case
  proof (cases "is_port si")
    case False
    with Cons.prems have "connect_ports ai sl rest m = Inr m'" by simp
    from Cons.IH [OF this] False show ?thesis by auto
  next
    case True
    with Cons.prems obtain nm ow w where
      rn: "remap_name ai sl (CHR 0x5C # ys_name (gate_id si)) = Inr (nm, ow)" and
      mw: "module_wire m nm = Some w" and
      rest: "connect_ports ai sl rest (connect m (port_conn si w)) = Inr m'"
      by (auto split: sum.splits option.splits)
    from Cons.IH [OF rest] have
      ih: "wires m' = wires (connect m (port_conn si w))"
          "set (connections (connect m (port_conn si w))) \<subseteq> set (connections m')"
          "\<forall>sj \<in> set rest. is_port sj \<longrightarrow>
             (\<exists>nm ow w'. remap_name ai sl (CHR 0x5C # ys_name (gate_id sj)) = Inr (nm, ow) \<and>
                module_wire (connect m (port_conn si w)) nm = Some w' \<and>
                port_conn sj w' \<in> set (connections m'))"
      by auto
    have a: "wires m' = wires m" using ih(1) by (simp add: connect_def)
    have b: "set (connections m) \<subseteq> set (connections m')" using ih(2) by (auto simp: connect_def)
    have c: "port_conn si w \<in> set (connections m')" using ih(2) by (auto simp: connect_def)
    show ?thesis using a b c rn mw ih(3) by auto
  qed
qed

lemma module_wire_cong: "wires m' = wires m \<Longrightarrow> module_wire m' nm = module_wire m nm"
  by (simp add: module_wire_def)

text \<open>
  Claim C1, as amended. When \<open>orlo_reintegrate\<close> has read the optimizer's output and
  returns, every node of the signal list that is marked as a port has a connection in the
  host module between its original bit and the wire of the module named by \<open>remap_name\<close>
  from \<^verbatim>\<open>ys__n<id>\<close>: for a node with a gate kind other than \<open>G_NONE\<close> the remapped
  (output) wire is the driver and the original bit is driven; for a node of kind \<open>G_NONE\<close>
  the original bit is the driver and the remapped (input) wire is driven.
\<close>

theorem reintegrate_closes_boundary:
  assumes run: "orlo_reintegrate splice_cells ai sl (Parsed (Some mapped_mod)) m = Inr m'"
      and si: "si \<in> set sl" "is_port si"
  shows "\<exists>nm ow w c.
           remap_name ai sl (CHR 0x5C # ys_name (gate_id si)) = Inr (nm, ow) \<and>
           module_wire m' nm = Some w \<and> c \<in> set (connections m') \<and>
           (gate_type si \<noteq> G_NONE \<longrightarrow>
              conn_driver c = sigspec_of_wire w \<and> conn_driven c = [gate_bit si]) \<and>
           (gate_type si = G_NONE \<longrightarrow>
              conn_driver c = [gate_bit si] \<and> conn_driven c = sigspec_of_wire w)"
proof -
  from run obtain m2 where cp: "connect_ports ai sl sl m2 = Inr m'"
    by (auto simp: orlo_reintegrate_def split: sum.splits)
  from connect_ports_spec [OF cp] si obtain nm ow w where
    h: "remap_name ai sl (CHR 0x5C # ys_name (gate_id si)) = Inr (nm, ow)"
       "module_wire m2 nm = Some w" "port_conn si w \<in> set (connections m')"
       "wires m' = wires m2"
    by blast
  have mw: "module_wire m' nm = Some w" using h(2,4) by (simp add: module_wire_def)
  have d: "gate_type si \<noteq> G_NONE \<longrightarrow>
              conn_driver (port_conn si w) = sigspec_of_wire w \<and>
              conn_driven (port_conn si w) = [gate_bit si]"
          "gate_type si = G_NONE \<longrightarrow>
              conn_driver (port_conn si w) = [gate_bit si] \<and>
              conn_driven (port_conn si w) = sigspec_of_wire w"
    by (simp_all add: port_conn_def conn_driver_def conn_driven_def)
  show ?thesis using h(1) mw h(3) d by blast
qed

lemmas reint_xy_eval =
  orlo_reintegrate_def no_cells_def sl_xy_def mapped_xy_def m_xy_def w_x_def w_y_def
  abc_x_def abc_y_def remap_name_def starts_with_def atoi_def is_digit_def digit_val_def
  INT_MAX_def abc_prefix_def string_of_int_def string_of_nat.simps digit_char_def
  c_str_plus1_def Let_def ys_name_def addWire_def connect_def module_wire_def port_conn_def
  sigspec_of_wire_def conn_driver_def conn_driven_def

theorem reintegrate_closes_boundary_witness:
  "orlo_reintegrate no_cells 5 sl_xy (Parsed (Some mapped_xy)) m_xy =
     Inr \<lparr> wires = [w_x, w_y, abc_x, abc_y],
           connections = [([WireBit abc_x 0], [WireBit w_x 0]), ([WireBit w_y 0], [WireBit abc_y 0])] \<rparr> \<and>
   sl_xy ! 1 \<in> set sl_xy \<and> is_port (sl_xy ! 1) \<and>
   (\<exists>nm ow w c.
      remap_name 5 sl_xy (CHR 0x5C # ys_name (gate_id (sl_xy ! 1))) = Inr (nm, ow) \<and>
      c \<in> {([WireBit abc_x 0], [WireBit w_x 0]), ([WireBit w_y 0], [WireBit abc_y 0])} \<and>
      conn_driver c = sigspec_of_wire w \<and> conn_driven c = [WireBit w_y 0])"
proof -
  have run: "orlo_reintegrate no_cells 5 sl_xy (Parsed (Some mapped_xy)) m_xy =
     Inr \<lparr> wires = [w_x, w_y, abc_x, abc_y],
           connections = [([WireBit abc_x 0], [WireBit w_x 0]), ([WireBit w_y 0], [WireBit abc_y 0])] \<rparr>"
    by (simp add: reint_xy_eval)
  have si: "sl_xy ! 1 \<in> set sl_xy" "is_port (sl_xy ! 1)"
    by (simp_all add: sl_xy_def)
  have ty: "gate_type (sl_xy ! 1) \<noteq> G_NONE" "gate_bit (sl_xy ! 1) = WireBit w_y 0"
    by (simp_all add: sl_xy_def)
  from reintegrate_closes_boundary [OF run si] ty
  have "\<exists>nm ow w c.
      remap_name 5 sl_xy (CHR 0x5C # ys_name (gate_id (sl_xy ! 1))) = Inr (nm, ow) \<and>
      c \<in> {([WireBit abc_x 0], [WireBit w_x 0]), ([WireBit w_y 0], [WireBit abc_y 0])} \<and>
      conn_driver c = sigspec_of_wire w \<and> conn_driven c = [WireBit w_y 0]"
    by simp blast
  with run si show ?thesis by blast
qed

text \<open>
  Claim C1 as stated makes the original bit of a node with a gate kind the driver of the
  remapped wire. For the buffer node of the example the connection that is added has the
  remapped wire as its driver, and no connection of the module has the original bit
  of the wire y as its driver.
\<close>

theorem reintegrate_direction_counterexample:
  "orlo_reintegrate no_cells 5 sl_xy (Parsed (Some mapped_xy)) m_xy =
     Inr \<lparr> wires = [w_x, w_y, abc_x, abc_y],
           connections = [([WireBit abc_x 0], [WireBit w_x 0]), ([WireBit w_y 0], [WireBit abc_y 0])] \<rparr> \<and>
   gate_type (sl_xy ! 1) = G_BUF \<and> gate_bit (sl_xy ! 1) = WireBit w_y 0 \<and>
   conn_driver ([WireBit w_y 0], [WireBit abc_y 0]) = [WireBit abc_y 0] \<and>
   conn_driver ([WireBit w_y 0], [WireBit abc_y 0]) \<noteq> [WireBit w_y 0] \<and>
   conn_driver ([WireBit abc_x 0], [WireBit w_x 0]) \<noteq> [WireBit w_y 0]"
  by (simp add: reint_xy_eval)

text \<open>
  Claim C9 on the code: with one declared output and no output file, \<open>orlo_reintegrate\<close>
  returns normally and leaves the module as it was; it raises no error.
\<close>

theorem missing_output_with_declared_output_is_skipped:
  "count_output sl_xy = 1 \<and> orlo_reintegrate no_cells 5 sl_xy NoFile m_xy = Inr m_xy"
  by (simp add: count_output_def sl_xy_def orlo_reintegrate_def)

section \<open>Loop breaker: the choice of the break node\<close>

lemma str_less_lexord:
  "str_less xs ys \<longleftrightarrow> (xs, ys) \<in> lexord {(x, y). (of_char x :: nat) < of_char y}"
  by (induction xs ys rule: str_less.induct) auto

lemma str_less_irrefl: "\<not> str_less xs xs"
  by (induction xs) auto

lemma str_less_trans: "str_less xs ys \<Longrightarrow> str_less ys zs \<Longrightarrow> str_less xs zs"
  unfolding str_less_lexord
  by (erule lexord_trans) (auto simp: trans_def)

lemma str_less_total: "str_less xs ys \<or> xs = ys \<or> str_less ys xs"
  unfolding str_less_lexord
  by (rule lexord_linear) (auto simp: not_less le_less dest: injD [OF inj_of_char])

lemma str_not_less_trans:
  "\<not> str_less xs ys \<Longrightarrow> \<not> str_less ys zs \<Longrightarrow> \<not> str_less xs zs"
  using str_less_total [of xs ys] str_less_trans [of ys xs zs] by auto

lemma user_not_internal: "user_named w \<Longrightarrow> \<not> internal_named w"
  by (auto simp: user_named_def internal_named_def)

lemma not_preferred_refl: "not_preferred sl es k k"
  by (auto simp: not_preferred_def str_less_irrefl split: option.splits)

lemma not_preferred_trans:
  assumes "not_preferred sl es a b" "not_preferred sl es b c"
      and "names_ok sl a" "names_ok sl b" "names_ok sl c"
  shows "not_preferred sl es a c"
proof (cases "node_wire sl a")
  case None
  then show ?thesis by (simp add: not_preferred_def)
next
  case (Some wa)
  with assms(1) obtain wb where wb: "node_wire sl b = Some wb"
    by (auto simp: not_preferred_def split: option.splits)
  with assms(2) obtain wc where wc: "node_wire sl c = Some wc"
    by (auto simp: not_preferred_def split: option.splits)
  from assms(3-5) Some wb wc have cls:
    "internal_named wa \<or> user_named wa" "internal_named wb \<or> user_named wb"
    "internal_named wc \<or> user_named wc"
    by (auto simp: names_ok_def)
  from assms(1,2) Some wb wc cls show ?thesis
    unfolding not_preferred_def
    by (auto dest: user_not_internal str_not_less_trans)
qed

lemma pick_not_preferred:
  assumes "pick sl es id1 id2 = Inr i" "names_ok sl id1" "names_ok sl id2"
  shows "not_preferred sl es id1 i \<and> not_preferred sl es id2 i \<and> (i = id1 \<or> i = id2)"
proof -
  from assms(1) obtain g1 g2 where g: "gate_at sl id1 = Inr g1" "gate_at sl id2 = Inr g2"
    by (auto simp: pick_def split: sum.splits)
  show ?thesis
  proof (cases "bit_wire (gate_bit g1)")
    case None
    with assms(1) g show ?thesis
      by (auto simp: pick_def not_preferred_def node_wire_def str_less_irrefl split: option.splits)
  next
    case w1: (Some w1)
    show ?thesis
    proof (cases "bit_wire (gate_bit g2)")
      case None
      with assms(1) g w1 show ?thesis
        by (auto simp: pick_def not_preferred_def node_wire_def str_less_irrefl)
    next
      case w2: (Some w2)
      from assms(2,3) g w1 w2 have cls:
        "internal_named w1 \<or> user_named w1" "internal_named w2 \<or> user_named w2"
        by (auto simp: names_ok_def node_wire_def)
      have tot: "str_less (name w2) (name w1) \<Longrightarrow> \<not> str_less (name w1) (name w2)"
        using str_less_trans [of "name w1" "name w2" "name w1"] str_less_irrefl
        by auto
      from assms(1) g w1 w2 cls tot show ?thesis
        unfolding pick_def not_preferred_def node_wire_def
        by (auto simp: str_less_irrefl internal_named_def user_named_def split: if_splits)
    qed
  qed
qed

lemma pick_scan_not_preferred:
  assumes "pick_scan sl es id1 ks = Inr c" "names_ok sl id1" "\<forall>k \<in> set ks. names_ok sl k"
  shows "not_preferred sl es id1 c \<and> (\<forall>k \<in> set ks. not_preferred sl es k c) \<and> names_ok sl c"
  using assms
proof (induction ks arbitrary: id1)
  case Nil
  then show ?case by (simp add: not_preferred_refl)
next
  case (Cons k ks)
  from Cons.prems(1) obtain i where i: "pick sl es id1 k = Inr i" and r: "pick_scan sl es i ks = Inr c"
    by (auto split: sum.splits)
  from pick_not_preferred [OF i] Cons.prems have
    p: "not_preferred sl es id1 i" "not_preferred sl es k i" "names_ok sl i"
    by auto
  from Cons.IH [OF r p(3)] Cons.prems(3) have
    ih: "not_preferred sl es i c" "\<forall>k \<in> set ks. not_preferred sl es k c" "names_ok sl c"
    by auto
  from not_preferred_trans [OF p(1) ih(1)] not_preferred_trans [OF p(2) ih(1)] Cons.prems p(3) ih
  show ?case by auto
qed

text \<open>
  Claim C4, as amended. When \<open>choose_break\<close> returns the node \<open>c\<close> for an edge map whose
  wires all have a name that starts with a dollar sign or a backslash, then \<open>c\<close> is a key
  of the map and, compared with any key \<open>k\<close>: if \<open>c\<close> has no backing wire then \<open>k\<close> has
  none either (a node with a wire is preferred to one without); if both have a wire and
  that of \<open>c\<close> is internal (\<^verbatim>\<open>$\<close>) then so is that of \<open>k\<close> (a user-given name is preferred
  to an internal one); if both are of the same naming class then \<open>k\<close> has at most as many
  remaining successors as \<open>c\<close>; and with equally many successors the name of \<open>k\<close> is not
  smaller than that of \<open>c\<close> in the order of the wire names.
\<close>

theorem choose_break_preference:
  assumes ch: "choose_break sl es = Inr c"
      and ok: "\<forall>k \<in> fst ` set es. names_ok sl k"
      and k: "k \<in> fst ` set es"
  shows "c \<in> fst ` set es \<and>
         (node_wire sl c = None \<longrightarrow> node_wire sl k = None) \<and>
         (\<forall>wc wk. node_wire sl c = Some wc \<and> node_wire sl k = Some wk \<longrightarrow>
            (internal_named wc \<longrightarrow> internal_named wk) \<and>
            (user_named wk = user_named wc \<longrightarrow>
               length (edges_at es k) \<le> length (edges_at es c) \<and>
               (length (edges_at es k) = length (edges_at es c) \<longrightarrow>
                  \<not> str_less (name wk) (name wc))))"
proof -
  from ch obtain e rest where es: "es = e # rest" by (cases es) (auto simp: choose_break_def)
  with ch have sc: "pick_scan sl es (fst e) (map fst es) = Inr c" by (simp add: choose_break_def)
  have "names_ok sl (fst e)" using ok es by simp
  from pick_scan_not_preferred [OF sc this] ok k have np: "not_preferred sl es k c" "names_ok sl c"
    by auto
  have nk: "names_ok sl k" using ok k by blast
  have key: "c \<in> fst ` set es" using ch by (rule choose_break_key)
  from np nk show ?thesis
    unfolding not_preferred_def names_ok_def
    using key by (auto dest: user_not_internal split: option.splits)
qed

lemmas pref_eval = choose_break_def pick_def gate_at_def sl_pref_def gate_def w_t_def w_u_def w_a_def
  first_char_def edges_at_def

theorem choose_break_preference_witness:
  "choose_break sl_pref [(0, [3]), (1, [3]), (2, [3])] = Inr 2 \<and>
   names_ok sl_pref 0 \<and> names_ok sl_pref 1 \<and> names_ok sl_pref 2 \<and>
   (1::int) \<in> fst ` set [(0, [3]), (1, [3]), (2, [3::int])] \<and>
   node_wire sl_pref 2 = Some w_u \<and> node_wire sl_pref 1 = Some w_t \<and>
   \<not> internal_named w_u \<and> user_named w_u \<noteq> user_named w_t"
proof -
  have ch: "choose_break sl_pref [(0, [3]), (1, [3]), (2, [3])] = Inr 2"
    by (simp add: pref_eval)
  have ok: "\<forall>k \<in> fst ` set [(0, [3]), (1, [3]), (2, [3::int])]. names_ok sl_pref k"
    by (simp add: names_ok_def node_wire_def internal_named_def user_named_def pref_eval)
  have k: "(1::int) \<in> fst ` set [(0, [3]), (1, [3]), (2, [3::int])]" by simp
  have w: "node_wire sl_pref 2 = Some w_u" "node_wire sl_pref 1 = Some w_t"
    by (simp_all add: node_wire_def gate_at_def sl_pref_def gate_def)
  from choose_break_preference [OF ch ok k] w
  have "\<not> internal_named w_u \<or> internal_named w_t" by simp
  moreover have "\<not> internal_named w_u" "user_named w_u \<noteq> user_named w_t"
    by (simp_all add: internal_named_def user_named_def w_u_def w_t_def first_char_def)
  moreover have "names_ok sl_pref 0" "names_ok sl_pref 1" "names_ok sl_pref 2"
    using ok by simp_all
  ultimately show ?thesis using ch k w by blast
qed

text \<open>
  Claim C4 as stated prefers a node without a backing wire, then an internal name. With
  node 0 on a constant bit, node 1 on the internal wire \<^verbatim>\<open>$t\<close> and node 2 on a
  user-named wire, each with one successor, the code chooses node 2, with or without node
  0 among the keys.
\<close>

theorem choose_break_counterexample:
  "choose_break sl_pref [(0, [3]), (1, [3]), (2, [3])] = Inr 2 \<and>
   choose_break sl_pref [(1, [3]), (2, [3])] = Inr 2 \<and>
   bit_wire (gate_bit (sl_pref ! 0)) = None \<and>
   bit_wire (gate_bit (sl_pref ! 1)) = Some w_t \<and> name w_t = ''$t'' \<and>
   bit_wire (gate_bit (sl_pref ! 2)) = Some w_u \<and> name w_u = CHR 0x5C # ''u''"
  by (simp add: pref_eval)

section \<open>Loop breaker: a ring without sources\<close>

lemma build_graph_no_sources:
  assumes "build_graph gs (es, cs, wp) = Inr (es', cs', wp')"
      and "\<forall>g \<in> set gs. gate_type g \<noteq> G_NONE \<and> gate_type g \<noteq> G_FF"
  shows "wp' = wp"
  using assms
  by (induction gs arbitrary: es cs) (auto split: sum.splits)

lemma handle_loops_no_sources:
  assumes "handle_loops am iv r m idx = Inr s"
      and "\<forall>g \<in> set (signal_list r). gate_type g \<noteq> G_NONE \<and> gate_type g \<noteq> G_FF"
  shows "reg s = r \<and> host s = m \<and> autoidx s = idx"
proof -
  from assms(1) obtain es cs wp where
    b: "build_graph (signal_list r) ([], replicate (length (signal_list r)) 0, []) = Inr (es, cs, wp)"
    and run: "handle_loops_run am iv
            \<lparr> reg = r, host = m, autoidx = idx, edges = es, in_edges_count = cs, workpool = wp \<rparr> = Inr s"
    by (auto simp: handle_loops_def split: sum.splits)
  from build_graph_no_sources [OF b assms(2)] have "wp = []" .
  with run show ?thesis by (subst (asm) handle_loops_run.simps) auto
qed

text \<open>
  Claim C3 on the code. \<open>handle_loops\<close> is a total function (both loops terminate, by
  the measure above). For two inverters that feed each other, with no node of kind
  \<open>G_NONE\<close> or \<open>G_FF\<close> in the registry, the workpool is empty from the start, the outer
  loop is not entered, and the function returns with the registry as it was: node 1 is
  still a fan-in of node 0 and node 0 a fan-in of node 1, so the graph of the
  combinational nodes keeps its cycle.
\<close>

theorem handle_loops_leaves_ring:
  "handle_loops id (\<lambda>b. Sx) ring m0 7 =
     Inr \<lparr> reg = ring, host = m0, autoidx = 7, edges = [(0, [1]), (1, [0])],
           in_edges_count = [1, 1], workpool = [] \<rparr> \<and>
   1 \<in> set (comb_fanins (signal_list ring ! 0)) \<and>
   0 \<in> set (comb_fanins (signal_list ring ! 1))"
  by (simp add: handle_loops_def ring_def gate_def add_fanin_def count_incr_def edge_insert_def
      map_assign_def map_erase_def edges_at_def set_insert_def handle_loops_run.simps
      comb_fanins_def)

text \<open>
  For comparison, a loop that is fed by a node of kind \<open>G_NONE\<close>: node 1 (an AND of the
  input node 0 and of node 2) and node 2 (the inverter of node 1). The loop is broken at
  node 1: the new node 3 on the wire \<^verbatim>\<open>$abcloop$7\<close> replaces node 1 as the fan-in of node
  2, both are ports, and the new bit is driven from the bit of node 1.
\<close>

lemma handle_loops_breaks_fed_loop:
  "(case handle_loops id (\<lambda>b. Sx) fed_loop m0 7 of
      Inl e \<Rightarrow> False
    | Inr s \<Rightarrow>
        map (\<lambda>g. (gate_type g, comb_fanins g, is_port g)) (signal_list (reg s)) =
          [(G_NONE, [], False), (G_AND, [0, 2], True), (G_NOT, [3], False), (G_NONE, [], True)] \<and>
        connections (host s) =
          [([WireBit \<lparr> name = ''$abcloop$7'', width = 1 \<rparr> 0], [WireBit w_b 0])] \<and>
        autoidx s = 8 \<and> edges s = [] \<and> workpool s = [])"
  by code_simp

section \<open>Clock-domain partitioner: the domains partition the selected cells\<close>

lemma rev_grows_refl: "rev_grows st st"
  by (simp add: rev_grows_def)

lemma rev_grows_trans: "rev_grows a b \<Longrightarrow> rev_grows b c \<Longrightarrow> rev_grows a c"
  by (simp add: rev_grows_def)

lemma push_inv:
  assumes inv: "part_inv A rem asg rv" and c: "c \<in> set rem"
  shows "part_inv A (removeAll c rem) (asg(key \<mapsto> at_or_empty asg key @ [c])) (rv(c \<mapsto> key))"
proof -
  from inv have d: "distinct rem" and sub: "set rem \<subseteq> A" and dm: "dom rv = A - set rem"
    and mem: "\<And>c key. c \<in> set (at_or_empty asg key) \<longleftrightarrow> rv c = Some key"
    and dv: "\<And>key. distinct (at_or_empty asg key)"
    and ne: "\<And>key cells. asg key = Some cells \<Longrightarrow> cells \<noteq> []"
    unfolding part_inv_def by blast+
  from c dm have rc: "rv c = None" by (auto simp: dom_def)
  then have nc: "\<And>k. c \<notin> set (at_or_empty asg k)" using mem by simp
  let ?asg = "asg(key \<mapsto> at_or_empty asg key @ [c])"
  have vec: "at_or_empty ?asg k = (if k = key then at_or_empty asg key @ [c] else at_or_empty asg k)" for k
    by (simp add: at_or_empty_def)
  have 1: "distinct (removeAll c rem)" using d by (simp add: distinct_removeAll)
  have 2: "set (removeAll c rem) \<subseteq> A" using sub by auto
  have 3: "dom (rv(c \<mapsto> key)) = A - set (removeAll c rem)" using dm c sub by auto
  have 4: "c' \<in> set (at_or_empty ?asg k) \<longleftrightarrow> (rv(c \<mapsto> key)) c' = Some k" for c' k
    using mem nc rc by (auto simp: vec)
  have 5: "distinct (at_or_empty ?asg k)" for k
    using dv nc by (simp add: vec)
  have 6: "?asg k = Some cells \<Longrightarrow> cells \<noteq> []" for k cells
    using ne by (auto split: if_splits)
  show ?thesis unfolding part_inv_def using 1 2 3 4 5 6 by blast
qed

lemma move_cell_ok:
  assumes ok: "part_ok A st" and c: "c \<in> set (unassigned_cells st)"
      and st1: "unassigned_cells st1 = set_erase c (unassigned_cells st)"
               "assigned_cells st1 = assigned_cells st"
               "assigned_cells_reverse st1 = assigned_cells_reverse st"
  shows "part_ok A (push_cell key c st1) \<and> rev_grows st (push_cell key c st1)"
proof -
  from ok have inv: "part_inv A (unassigned_cells st) (assigned_cells st) (assigned_cells_reverse st)"
    by (simp add: part_ok_def)
  from push_inv [OF inv c, of key] have "part_ok A (push_cell key c st1)"
    by (simp add: part_ok_def push_cell_def st1 set_erase_def)
  moreover from inv c have "assigned_cells_reverse st c = None"
    unfolding part_inv_def by (auto simp: dom_def)
  then have "rev_grows st (push_cell key c st1)"
    by (auto simp: rev_grows_def push_cell_def st1)
  ultimately show ?thesis by simp
qed

lemma absorb_up_ok:
  "part_ok A st \<Longrightarrow> part_ok A (absorb_up key c st) \<and> rev_grows st (absorb_up key c st)"
  unfolding absorb_up_def
  by (auto simp: rev_grows_refl intro!: move_cell_ok [THEN conjunct1] move_cell_ok [THEN conjunct2])

lemma absorb_down_ok:
  "part_ok A st \<Longrightarrow> part_ok A (absorb_down key c st) \<and> rev_grows st (absorb_down key c st)"
  unfolding absorb_down_def
  by (auto simp: rev_grows_refl intro!: move_cell_ok [THEN conjunct1] move_cell_ok [THEN conjunct2])

lemma absorb_any_ok:
  "part_ok A st \<Longrightarrow> part_ok A (absorb_any key c st) \<and> rev_grows st (absorb_any key c st)"
  unfolding absorb_any_def
  by (auto simp: rev_grows_refl intro!: move_cell_ok [THEN conjunct1] move_cell_ok [THEN conjunct2])

lemma fold_ok:
  assumes step: "\<And>x s. part_ok A s \<Longrightarrow> part_ok A (f x s) \<and> rev_grows s (f x s)"
      and ok: "part_ok A st"
  shows "part_ok A (fold f xs st) \<and> rev_grows st (fold f xs st)"
  using ok
proof (induction xs arbitrary: st)
  case Nil
  then show ?case by (simp add: rev_grows_refl)
next
  case (Cons x xs)
  from step [OF Cons.prems, of x] have a: "part_ok A (f x st)" "rev_grows st (f x st)" by auto
  from Cons.IH [OF a(1)] a(2) show ?case by (auto intro: rev_grows_trans)
qed


lemma step_up_ok:
  assumes "step_up st = Inr st1" "part_ok A st"
  shows "part_ok A st1 \<and> rev_grows st st1"
proof (cases "expand_queue_up st")
  case Nil
  with assms show ?thesis by (simp add: step_up_def rev_grows_refl)
next
  case (Cons cell rest)
  let ?st0 = "st \<lparr> expand_queue_up := set_erase cell (expand_queue_up st) \<rparr>"
  from Cons assms(1) obtain key where
    st1: "st1 = fold (\<lambda>b s. fold (absorb_up key) (at_or_empty (bit_to_cell_up s) b) s)
                       (at_or_empty (cell_to_bit_up st) cell) ?st0"
    by (auto simp: step_up_def split: option.splits)
  have ok0: "part_ok A ?st0" using assms(2) by (simp add: part_ok_def)
  have "part_ok A st1 \<and> rev_grows ?st0 st1"
    unfolding st1
  proof (rule fold_ok [OF _ ok0])
    fix b s assume ok: "part_ok A s"
    show "part_ok A (fold (absorb_up key) (at_or_empty (bit_to_cell_up s) b) s) \<and>
               rev_grows s (fold (absorb_up key) (at_or_empty (bit_to_cell_up s) b) s)"
      by (rule fold_ok, erule absorb_up_ok, rule ok)
  qed
  then show ?thesis by (simp add: rev_grows_def)
qed

lemma step_down_ok:
  assumes "step_down st = Inr st1" "part_ok A st"
  shows "part_ok A st1 \<and> rev_grows st st1"
proof (cases "expand_queue_down st")
  case Nil
  with assms show ?thesis by (simp add: step_down_def rev_grows_refl)
next
  case (Cons cell rest)
  let ?st0 = "st \<lparr> expand_queue_down := set_erase cell (expand_queue_down st) \<rparr>"
  from Cons assms(1) obtain key where
    st1: "st1 = fold (\<lambda>b s. fold (absorb_down key) (at_or_empty (bit_to_cell_down s) b) s)
                       (at_or_empty (cell_to_bit_down st) cell) ?st0"
    by (auto simp: step_down_def split: option.splits)
  have ok0: "part_ok A ?st0" using assms(2) by (simp add: part_ok_def)
  have "part_ok A st1 \<and> rev_grows ?st0 st1"
    unfolding st1
  proof (rule fold_ok [OF _ ok0])
    fix b s assume ok: "part_ok A s"
    show "part_ok A (fold (absorb_down key) (at_or_empty (bit_to_cell_down s) b) s) \<and>
               rev_grows s (fold (absorb_down key) (at_or_empty (bit_to_cell_down s) b) s)"
      by (rule fold_ok, erule absorb_down_ok, rule ok)
  qed
  then show ?thesis by (simp add: rev_grows_def)
qed

lemma step_any_ok:
  assumes "step_any st = Inr st1" "part_ok A st"
  shows "part_ok A st1 \<and> rev_grows st st1"
proof (cases "expand_queue st")
  case Nil
  with assms show ?thesis by (simp add: step_any_def rev_grows_refl)
next
  case (Cons cell rest)
  let ?st0 = "st \<lparr> expand_queue := set_erase cell (expand_queue st) \<rparr>"
  from Cons assms(1) obtain key bits where
    st1: "st1 = fold (\<lambda>b s. (fold (absorb_any key) (at_or_empty (bit_to_cell s) b) s)
                                \<lparr> bit_to_cell := (bit_to_cell s)(b \<mapsto> []) \<rparr>)
                     bits ?st0"
    by (auto simp: step_any_def split: option.splits)
  have ok0: "part_ok A ?st0" using assms(2) by (simp add: part_ok_def)
  have "part_ok A st1 \<and> rev_grows ?st0 st1"
    unfolding st1
  proof (rule fold_ok [OF _ ok0])
    fix b s assume ok: "part_ok A s"
    have "part_ok A (fold (absorb_any key) (at_or_empty (bit_to_cell s) b) s) \<and>
               rev_grows s (fold (absorb_any key) (at_or_empty (bit_to_cell s) b) s)"
      by (rule fold_ok, erule absorb_any_ok, rule ok)
    then show "part_ok A ((fold (absorb_any key) (at_or_empty (bit_to_cell s) b) s)
                           \<lparr> bit_to_cell := (bit_to_cell s)(b \<mapsto> []) \<rparr>) \<and>
               rev_grows s ((fold (absorb_any key) (at_or_empty (bit_to_cell s) b) s)
                           \<lparr> bit_to_cell := (bit_to_cell s)(b \<mapsto> []) \<rparr>)"
      by (simp add: part_ok_def rev_grows_def)
  qed
  then show ?thesis by (simp add: rev_grows_def)
qed

lemma swap_directed_ok: "part_ok A (swap_directed st) = part_ok A st"
  "rev_grows s0 (swap_directed st) = rev_grows s0 st"
  by (simp_all add: swap_directed_def part_ok_def rev_grows_def)

lemma swap_any_ok: "part_ok A (swap_any st) = part_ok A st"
  "rev_grows s0 (swap_any st) = rev_grows s0 st"
  by (simp_all add: swap_any_def part_ok_def rev_grows_def)

lemma expand_directed_ok:
  "expand_directed st = Inr st' \<Longrightarrow> part_ok A st \<Longrightarrow> part_ok A st' \<and> rev_grows st st'"
proof (induction st rule: expand_directed.induct)
  case (1 st)
  show ?case
  proof (cases "expand_queue_up st = [] \<and> expand_queue_down st = []")
    case True
    with "1.prems" show ?thesis
      by (subst (asm) expand_directed.simps) (simp add: rev_grows_refl)
  next
    case False
    with "1.prems"(1) obtain st1 st2 where
      u: "step_up st = Inr st1" and d: "step_down st1 = Inr st2" and
      r: "expand_directed (swap_directed st2) = Inr st'"
      by (subst (asm) expand_directed.simps) (auto split: sum.splits)
    from step_up_ok [OF u "1.prems"(2)] have a: "part_ok A st1" "rev_grows st st1" by auto
    from step_down_ok [OF d a(1)] have b: "part_ok A st2" "rev_grows st1 st2" by auto
    from b(1) have c: "part_ok A (swap_directed st2)" by (simp add: swap_directed_ok)
    from "1.IH" [OF False u d r c] have e: "part_ok A st'" "rev_grows (swap_directed st2) st'" by auto
    have "rev_grows st2 (swap_directed st2)" by (simp add: swap_directed_ok rev_grows_refl)
    with a(2) b(2) e show ?thesis by (blast intro: rev_grows_trans)
  qed
qed

lemma expand_closure_ok:
  "expand_closure st = Inr st' \<Longrightarrow> part_ok A st \<Longrightarrow> part_ok A st' \<and> rev_grows st st'"
proof (induction st rule: expand_closure.induct)
  case (1 st)
  show ?case
  proof (cases "expand_queue st = []")
    case True
    with "1.prems" show ?thesis
      by (subst (asm) expand_closure.simps) (simp add: rev_grows_refl)
  next
    case False
    with "1.prems"(1) obtain st1 where
      u: "step_any st = Inr st1" and r: "expand_closure (swap_any st1) = Inr st'"
      by (subst (asm) expand_closure.simps) (auto split: sum.splits)
    from step_any_ok [OF u "1.prems"(2)] have a: "part_ok A st1" "rev_grows st st1" by auto
    from a(1) have c: "part_ok A (swap_any st1)" by (simp add: swap_any_ok)
    from "1.IH" [OF False u r c] have e: "part_ok A st'" "rev_grows (swap_any st1) st'" by auto
    have "rev_grows st1 (swap_any st1)" by (simp add: swap_any_ok rev_grows_refl)
    with a(2) e show ?thesis by (blast intro: rev_grows_trans)
  qed
qed

lemma set_insert_set: "set (set_insert x xs) = insert x (set xs)"
  by (auto simp: set_insert_def set_insort_key)

lemma set_insert_distinct: "distinct xs \<Longrightarrow> distinct (set_insert x xs)"
  by (simp add: set_insert_def distinct_insort)

lemma fold_set_insert:
  "set (fold set_insert xs acc) = set xs \<union> set acc"
  "distinct acc \<Longrightarrow> distinct (fold set_insert xs acc)"
  by (induction xs arbitrary: acc) (auto simp: set_insert_set set_insert_distinct)

lemma initial_ok: "part_ok (addr ` set all_cells) (initial_state all_cells)"
  by (simp add: part_ok_def part_inv_def initial_state_def fold_set_insert at_or_empty_def)

lemma index_bit_keeps:
  "unassigned_cells (index_bit ci co cell port b st) = unassigned_cells st"
  "assigned_cells (index_bit ci co cell port b st) = assigned_cells st"
  "assigned_cells_reverse (index_bit ci co cell port b st) = assigned_cells_reverse st"
  by (simp_all add: index_bit_def Let_def)

lemma fold_keeps:
  assumes "\<And>x s. g (f x s) = g s"
  shows "g (fold f xs s) = g s"
  by (induction xs arbitrary: s) (simp_all add: assms)

lemma index_cell_keeps:
  "unassigned_cells (index_cell am ci co cell st) = unassigned_cells st"
  "assigned_cells (index_cell am ci co cell st) = assigned_cells st"
  "assigned_cells_reverse (index_cell am ci co cell st) = assigned_cells_reverse st"
  unfolding index_cell_def
  by (intro fold_keeps index_bit_keeps)+

lemma seed_cells_ok:
  assumes "seed_cells am ci co cells st = Inr st'" "part_ok A st"
      and "distinct (map addr cells)" "addr ` set cells \<subseteq> set (unassigned_cells st)"
  shows "part_ok A st' \<and> rev_grows st st' \<and>
         (\<forall>cell \<in> set cells. \<forall>k. ff_key am cell = Inr (Some k) \<longrightarrow>
            assigned_cells_reverse st' (addr cell) = Some k)"
  using assms
proof (induction cells arbitrary: st)
  case Nil
  then show ?case by (simp add: rev_grows_refl)
next
  case (Cons cell rest)
  let ?st1 = "index_cell am ci co cell st"
  have k1: "unassigned_cells ?st1 = unassigned_cells st" "assigned_cells ?st1 = assigned_cells st"
    "assigned_cells_reverse ?st1 = assigned_cells_reverse st"
    by (rule index_cell_keeps)+
  have ok1: "part_ok A ?st1" using Cons.prems(2) by (simp add: part_ok_def k1)
  have g1: "rev_grows st ?st1" by (simp add: rev_grows_def k1)
  from Cons.prems(1) obtain ko where ko: "ff_key am cell = Inr ko"
    by (auto simp: Let_def split: sum.splits)
  show ?case
  proof (cases ko)
    case None
    with Cons.prems(1) ko have r: "seed_cells am ci co rest ?st1 = Inr st'"
      by (simp add: Let_def)
    have "addr ` set rest \<subseteq> set (unassigned_cells ?st1)" using Cons.prems(4) by (simp add: k1)
    from Cons.IH [OF r ok1 _ this] Cons.prems(3)
    have ih: "part_ok A st'" "rev_grows ?st1 st'"
      "\<forall>cell \<in> set rest. \<forall>k. ff_key am cell = Inr (Some k) \<longrightarrow>
            assigned_cells_reverse st' (addr cell) = Some k"
      by auto
    from ih g1 ko None show ?thesis by (auto intro: rev_grows_trans)
  next
    case (Some key)
    let ?c = "addr cell"
    let ?st2 = "?st1 \<lparr> unassigned_cells := set_erase ?c (unassigned_cells ?st1),
                       expand_queue := set_insert ?c (expand_queue ?st1),
                       expand_queue_up := set_insert ?c (expand_queue_up ?st1),
                       expand_queue_down := set_insert ?c (expand_queue_down ?st1) \<rparr>"
    from Cons.prems(1) ko Some have r: "seed_cells am ci co rest (push_cell key ?c ?st2) = Inr st'"
      by (simp add: Let_def)
    have cin: "?c \<in> set (unassigned_cells ?st1)" using Cons.prems(4) by (simp add: k1)
    have m: "part_ok A (push_cell key ?c ?st2) \<and> rev_grows ?st1 (push_cell key ?c ?st2)"
      by (rule move_cell_ok [OF ok1 cin]) simp_all
    have rc: "assigned_cells_reverse (push_cell key ?c ?st2) ?c = Some key"
      by (simp add: push_cell_def)
    have nin: "?c \<notin> addr ` set rest" using Cons.prems(3) by simp
    have "addr ` set rest \<subseteq> set (unassigned_cells st) - {?c}"
      using Cons.prems(4) nin by (auto simp: image_iff)
    then have "addr ` set rest \<subseteq> set (unassigned_cells (push_cell key ?c ?st2))"
      by (simp add: push_cell_def set_erase_def k1)
    from Cons.IH [OF r conjunct1 [OF m] _ this] Cons.prems(3)
    have ih: "part_ok A st'" "rev_grows (push_cell key ?c ?st2) st'"
      "\<forall>cell \<in> set rest. \<forall>k. ff_key am cell = Inr (Some k) \<longrightarrow>
            assigned_cells_reverse st' (addr cell) = Some k"
      by auto
    from ih(2) rc have "assigned_cells_reverse st' ?c = Some key"
      unfolding rev_grows_def by blast
    moreover have "rev_grows st st'"
      using g1 m ih(2) by (blast intro: rev_grows_trans)
    ultimately show ?thesis using ih(1,3) ko Some by auto
  qed
qed

lemma assign_fold:
  assumes "part_inv A rem (assigned_cells st) (assigned_cells_reverse st)"
      and "distinct xs" "set xs \<subseteq> set rem"
  shows "part_inv A (filter (\<lambda>c. c \<notin> set xs) rem)
           (assigned_cells (fold (push_cell key) xs st))
           (assigned_cells_reverse (fold (push_cell key) xs st)) \<and>
         rev_grows st (fold (push_cell key) xs st)"
  using assms
proof (induction xs arbitrary: st rem)
  case Nil
  then show ?case by (simp add: rev_grows_refl)
next
  case (Cons x xs)
  have x: "x \<in> set rem" using Cons.prems(3) by simp
  from push_inv [OF Cons.prems(1) x, of key]
  have a: "part_inv A (removeAll x rem) (assigned_cells (push_cell key x st))
             (assigned_cells_reverse (push_cell key x st))"
    by (simp add: push_cell_def)
  from Cons.prems(1) x have "assigned_cells_reverse st x = None"
    unfolding part_inv_def by (auto simp: dom_def)
  then have g: "rev_grows st (push_cell key x st)"
    by (auto simp: rev_grows_def push_cell_def)
  have "set xs \<subseteq> set (removeAll x rem)" using Cons.prems(2,3) by auto
  from Cons.IH [OF a _ this] Cons.prems(2)
  have ih: "part_inv A (filter (\<lambda>c. c \<notin> set xs) (removeAll x rem))
           (assigned_cells (fold (push_cell key) xs (push_cell key x st)))
           (assigned_cells_reverse (fold (push_cell key) xs (push_cell key x st)))"
      "rev_grows (push_cell key x st) (fold (push_cell key) xs (push_cell key x st))"
    by auto
  have "filter (\<lambda>c. c \<notin> set xs) (removeAll x rem) = filter (\<lambda>c. c \<notin> set (x # xs)) rem"
    by (induction rem) auto
  with ih g show ?case by (auto intro: rev_grows_trans)
qed

lemma assign_rest_ok:
  assumes "part_ok A st"
  shows "part_inv A [] (assigned_cells (assign_rest st)) (assigned_cells_reverse (assign_rest st)) \<and>
         rev_grows st (assign_rest st)"
proof -
  from assms have inv: "part_inv A (unassigned_cells st) (assigned_cells st) (assigned_cells_reverse st)"
    by (simp add: part_ok_def)
  then have d: "distinct (unassigned_cells st)" by (simp add: part_inv_def)
  from assign_fold [OF inv d subset_refl, of default_key] show ?thesis
    by (simp add: assign_rest_def)
qed

lemma part_inv_D:
  assumes "part_inv A rem asg rv"
  shows "dom rv = A - set rem"
    and "\<And>c key. c \<in> set (at_or_empty asg key) \<longleftrightarrow> rv c = Some key"
    and "\<And>key. distinct (at_or_empty asg key)"
    and "\<And>key cells. asg key = Some cells \<Longrightarrow> cells \<noteq> []"
  using assms unfolding part_inv_def by blast+

lemma partition_cells_inv:
  assumes run: "partition_cells am ci co all_cells = Inr st"
      and d: "distinct (map addr all_cells)"
  shows "part_inv (addr ` set all_cells) [] (assigned_cells st) (assigned_cells_reverse st)"
    and "\<forall>cell \<in> set all_cells. \<forall>k. ff_key am cell = Inr (Some k) \<longrightarrow>
            assigned_cells_reverse st (addr cell) = Some k"
proof -
  let ?A = "addr ` set all_cells"
  from run obtain st1 st2 st3 where
    s1: "seed_cells am ci co all_cells (initial_state all_cells) = Inr st1" and
    s2: "expand_directed st1 = Inr st2" and
    s3: "expand_closure st2 = Inr st3" and
    st: "st = assign_rest st3"
    by (auto simp: partition_cells_def split: sum.splits)
  have sub: "addr ` set all_cells \<subseteq> set (unassigned_cells (initial_state all_cells))"
    by (simp add: initial_state_def fold_set_insert)
  from seed_cells_ok [OF s1 initial_ok d sub]
  have a: "part_ok ?A st1"
    "\<forall>cell \<in> set all_cells. \<forall>k. ff_key am cell = Inr (Some k) \<longrightarrow>
            assigned_cells_reverse st1 (addr cell) = Some k"
    by auto
  from expand_directed_ok [OF s2 a(1)] have b: "part_ok ?A st2" "rev_grows st1 st2" by auto
  from expand_closure_ok [OF s3 b(1)] have c: "part_ok ?A st3" "rev_grows st2 st3" by auto
  from assign_rest_ok [OF c(1)] st
  have e: "part_inv ?A [] (assigned_cells st) (assigned_cells_reverse st)" "rev_grows st3 st"
    by auto
  show "part_inv ?A [] (assigned_cells st) (assigned_cells_reverse st)" by (rule e(1))
  have "rev_grows st1 st" using b(2) c(2) e(2) by (blast intro: rev_grows_trans)
  with a(2) show "\<forall>cell \<in> set all_cells. \<forall>k. ff_key am cell = Inr (Some k) \<longrightarrow>
            assigned_cells_reverse st (addr cell) = Some k"
    unfolding rev_grows_def by blast
qed

text \<open>
  Claim C6. When the partitioner completes on selected cells with distinct addresses,
  every selected cell is in the vector of exactly one domain, no vector holds a cell
  twice, the union of the vectors is the set of the selected cells, and no domain that
  was produced is empty.
\<close>

theorem partition_is_strict:
  assumes run: "partition_cells am ci co all_cells = Inr st"
      and d: "distinct (map addr all_cells)"
  shows "(\<forall>cell \<in> set all_cells. \<exists>!key. addr cell \<in> set (at_or_empty (assigned_cells st) key)) \<and>
         (\<forall>key. distinct (at_or_empty (assigned_cells st) key)) \<and>
         (\<Union>key. set (at_or_empty (assigned_cells st) key)) = addr ` set all_cells \<and>
         (\<forall>key cells. assigned_cells st key = Some cells \<longrightarrow> cells \<noteq> [])"
proof -
  let ?A = "addr ` set all_cells"
  let ?vec = "at_or_empty (assigned_cells st)"
  note inv = partition_cells_inv(1) [OF run d]
  have dm: "dom (assigned_cells_reverse st) = ?A"
    using part_inv_D(1) [OF inv] by simp
  have mem: "c \<in> set (?vec key) \<longleftrightarrow> assigned_cells_reverse st c = Some key" for c key
    by (rule part_inv_D(2) [OF inv])
  have dv: "distinct (?vec key)" for key
    by (rule part_inv_D(3) [OF inv])
  have ne: "assigned_cells st key = Some cells \<Longrightarrow> cells \<noteq> []" for key cells
    by (rule part_inv_D(4) [OF inv])
  have 1: "\<exists>!key. addr cell \<in> set (?vec key)" if "cell \<in> set all_cells" for cell
  proof -
    from that dm have "addr cell \<in> dom (assigned_cells_reverse st)" by blast
    then obtain key where key: "assigned_cells_reverse st (addr cell) = Some key" by blast
    show ?thesis
    proof (rule ex1I)
      show "addr cell \<in> set (?vec key)" using mem key by blast
    next
      fix k' assume "addr cell \<in> set (?vec k')"
      then have "assigned_cells_reverse st (addr cell) = Some k'" using mem by blast
      with key show "k' = key" by simp
    qed
  qed
  have 3: "(\<Union>key. set (?vec key)) = ?A"
  proof
    show "(\<Union>key. set (?vec key)) \<subseteq> ?A"
    proof
      fix c assume "c \<in> (\<Union>key. set (?vec key))"
      then obtain key where "c \<in> set (?vec key)" by blast
      then have "assigned_cells_reverse st c = Some key" using mem by blast
      then have "c \<in> dom (assigned_cells_reverse st)" by blast
      then show "c \<in> ?A" using dm by blast
    qed
    show "?A \<subseteq> (\<Union>key. set (?vec key))"
    proof
      fix c assume "c \<in> ?A"
      then obtain cell where cell: "cell \<in> set all_cells" "c = addr cell" by blast
      from ex1_implies_ex [OF 1 [OF cell(1)]] obtain key where "addr cell \<in> set (?vec key)" ..
      with cell(2) show "c \<in> (\<Union>key. set (?vec key))" by blast
    qed
  qed
  have c1: "\<forall>cell \<in> set all_cells. \<exists>!key. addr cell \<in> set (?vec key)"
    by (intro ballI 1)
  have 2: "\<forall>key. distinct (?vec key)"
    by (intro allI dv)
  have 4: "\<forall>key cells. assigned_cells st key = Some cells \<longrightarrow> cells \<noteq> []"
    by (intro allI impI, erule ne)
  show ?thesis by (rule conjI [OF c1 conjI [OF 2 conjI [OF 3 4]]])
qed

theorem partition_is_strict_witness:
  "distinct (map addr cells_a) \<and>
   (\<exists>st. partition_cells id std_input std_output cells_a = Inr st \<and>
      (\<Union>key. set (at_or_empty (assigned_cells st) key)) = {1, 2, 3, 4} \<and>
      at_or_empty (assigned_cells st) clk1_key = [1, 3] \<and>
      at_or_empty (assigned_cells st) clk2_key = [2] \<and>
      at_or_empty (assigned_cells st) default_key = [4])"
proof -
  have d: "distinct (map addr cells_a)" by code_simp
  have "case partition_cells id std_input std_output cells_a of
          Inl e \<Rightarrow> False
        | Inr st \<Rightarrow> at_or_empty (assigned_cells st) clk1_key = [1, 3] \<and>
                   at_or_empty (assigned_cells st) clk2_key = [2] \<and>
                   at_or_empty (assigned_cells st) default_key = [4]"
    by code_simp
  then obtain st where st: "partition_cells id std_input std_output cells_a = Inr st"
    and v: "at_or_empty (assigned_cells st) clk1_key = [1, 3]"
           "at_or_empty (assigned_cells st) clk2_key = [2]"
           "at_or_empty (assigned_cells st) default_key = [4]"
    by (cases "partition_cells id std_input std_output cells_a") auto
  have a: "addr ` set cells_a = {1, 2, 3, 4}" by code_simp
  from partition_is_strict [OF st d] have "(\<Union>key. set (at_or_empty (assigned_cells st) key)) = addr ` set cells_a"
    by (elim conjE)
  with a have u: "(\<Union>key. set (at_or_empty (assigned_cells st) key)) = {1, 2, 3, 4}" by simp
  have "partition_cells id std_input std_output cells_a = Inr st \<and>
      (\<Union>key. set (at_or_empty (assigned_cells st) key)) = {1, 2, 3, 4} \<and>
      at_or_empty (assigned_cells st) clk1_key = [1, 3] \<and>
      at_or_empty (assigned_cells st) clk2_key = [2] \<and>
      at_or_empty (assigned_cells st) default_key = [4]"
    by (rule conjI [OF st conjI [OF u conjI [OF v(1) conjI [OF v(2) v(3)]]]])
  then have "\<exists>st. partition_cells id std_input std_output cells_a = Inr st \<and>
      (\<Union>key. set (at_or_empty (assigned_cells st) key)) = {1, 2, 3, 4} \<and>
      at_or_empty (assigned_cells st) clk1_key = [1, 3] \<and>
      at_or_empty (assigned_cells st) clk2_key = [2] \<and>
      at_or_empty (assigned_cells st) default_key = [4]"
    by (rule exI)
  with d show ?thesis by (rule conjI)
qed

section \<open>Clock-domain partitioner: dependence on the order of the cells\<close>

subsection \<open>The index maps hold the touched bits\<close>













subsection \<open>After seeding\<close>







subsection \<open>The directed loop only spreads keys along shared bits\<close>












subsection \<open>The closure loop closes the assigned cells under shared bits\<close>















subsection \<open>The domain of a cell\<close>




lemma comp_keys_cong:
  "set cells2 = set cells1 \<Longrightarrow> comp_keys am cells2 = comp_keys am cells1"
  by (simp add: comp_keys_def shares_def touch_def ff_at_def fun_eq_iff)


subsection \<open>Renaming and reordering the cells\<close>










lemma partition_cells_c_domains:
  "domain_of (partition_cells id std_input std_output cells_c) 3 = Some clk1_key \<and>
   domain_of (partition_cells id std_input std_output cells_d) 2 = Some clk1_key \<and>
   domain_of (partition_cells id std_input std_output cells_c) 4 = Some default_key"
  by code_simp




end
